theory Spec2Isabelle
  imports Main "HOL-Library.Word" "HOL-Library.Signed_Division"
begin

unbundle bit_operations_syntax

section \<open>Go values used by exp/vfs/file.go\<close>

text \<open>
  A Go \<^verbatim>\<open>[]byte\<close> is a list of 8-bit words. Go's \<^verbatim>\<open>int\<close> and \<^verbatim>\<open>int64\<close> are
  64-bit two's complement integers: they are modelled as \<^typ>\<open>int\<close>, and every
  addition the source performs on them is wrapped by \<open>int64\<close>.
\<close>

type_synonym byte = "8 word"

definition int64 :: "int \<Rightarrow> int" where
  "int64 x = signed_take_bit 63 x"

text \<open>
  Errors are values. \<open>EOF\<close> is \<^verbatim>\<open>io.EOF\<close>, \<open>ErrPermission\<close> and \<open>ErrNotExist\<close> are the
  sentinels of package \<^verbatim>\<open>os\<close>, \<open>New\<close> is \<^verbatim>\<open>errors.New\<close>, \<open>Errorf\<close> is
  \<^verbatim>\<open>fmt.Errorf("...: %w", err)\<close> (it wraps an error) and \<open>ErrorfInt\<close> is
  \<^verbatim>\<open>fmt.Errorf("...: %d", n)\<close>.
\<close>

datatype error =
    EOF
  | ErrPermission
  | ErrNotExist
  | New string
  | Errorf string error
  | ErrorfInt string int

fun errors_Is :: "error \<Rightarrow> error \<Rightarrow> bool" where
  "errors_Is (Errorf m e) target = (Errorf m e = target \<or> errors_Is e target)"
| "errors_Is e target = (e = target)"

text \<open>A call either panics or returns.\<close>

datatype 'a go = Panic string | Ret 'a

subsection \<open>Open-mode flags (package constants of vfs)\<close>

text \<open>
  \<^verbatim>\<open>type Flag int\<close> with \<^verbatim>\<open>ReadOnly = Flag(os.O_RDONLY)\<close>,
  \<^verbatim>\<open>WriteOnly = Flag(os.O_WRONLY)\<close> and \<^verbatim>\<open>Create = Flag(os.O_CREATE)\<close>. Package \<^verbatim>\<open>os\<close>
  takes the values from \<^verbatim>\<open>syscall\<close>: \<^verbatim>\<open>O_RDONLY = 0x0\<close> and \<^verbatim>\<open>O_WRONLY = 0x1\<close> on
  every platform Go supports, \<^verbatim>\<open>O_CREAT = 0x40\<close> on Linux.
\<close>

type_synonym Flag = int

definition ReadOnly :: Flag where "ReadOnly = 0"
definition WriteOnly :: Flag where "WriteOnly = 1"
definition Create :: Flag where "Create = 64"

text \<open>
  The page sizes: \<^verbatim>\<open>DefaultPageSize = int64(types.MB)\<close> and
  \<^verbatim>\<open>MinPageSize = int64(32 * types.KB)\<close>, with \<^verbatim>\<open>KB = 1 << 10\<close> and
  \<^verbatim>\<open>MB = 1 << 20\<close> in package \<^verbatim>\<open>types\<close>.
\<close>

definition DefaultPageSize :: int where "DefaultPageSize = 1048576"
definition MinPageSize :: int where "MinPageSize = 32768"

text \<open>The \<^verbatim>\<open>whence\<close> values of package \<^verbatim>\<open>io\<close>.\<close>

definition SeekStart :: int where "SeekStart = 0"
definition SeekCurrent :: int where "SeekCurrent = 1"
definition SeekEnd :: int where "SeekEnd = 2"

subsection \<open>bytes.Buffer\<close>

text \<open>
  A \<^verbatim>\<open>bytes.Buffer\<close> is modelled by its unread bytes. \<^verbatim>\<open>Write\<close> appends and never
  returns an error. \<^verbatim>\<open>Read(p)\<close> on an empty buffer returns \<^verbatim>\<open>0, io.EOF\<close> (\<^verbatim>\<open>0, nil\<close>
  when \<^verbatim>\<open>len(p) == 0\<close>); otherwise it hands out the first \<^verbatim>\<open>len(p)\<close> unread bytes.
  \<^verbatim>\<open>Grow(n)\<close> panics on a negative \<open>n\<close> and otherwise only reserves capacity: the
  unread bytes stay as they are. \<^verbatim>\<open>Reset\<close> empties the buffer.
\<close>

type_synonym Buffer = "byte list"

definition buf_Len :: "Buffer \<Rightarrow> int" where
  "buf_Len b = int (length b)"

definition buf_Bytes :: "Buffer \<Rightarrow> byte list" where
  "buf_Bytes b = b"

definition buf_Reset :: "Buffer \<Rightarrow> Buffer" where
  "buf_Reset b = []"

definition buf_Write :: "Buffer \<Rightarrow> byte list \<Rightarrow> Buffer" where
  "buf_Write b p = b @ p"

definition buf_Read :: "Buffer \<Rightarrow> nat \<Rightarrow> (byte list \<times> error option) \<times> Buffer" where
  "buf_Read b n =
     (if b = [] then (([], if n = 0 then None else Some EOF), [])
      else ((take n b, None), drop n b))"

definition buf_Grow :: "Buffer \<Rightarrow> int \<Rightarrow> Buffer go" where
  "buf_Grow b n = (if n < 0 then Panic ''bytes.Buffer.Grow: negative count'' else Ret b)"

section \<open>The data model\<close>

text \<open>
  Modelled from the spec: the type \<^verbatim>\<open>FileInfo\<close> (a node of the directory tree) is
  declared outside file.go. The fields are the ones file.go reads or writes:
  \<^verbatim>\<open>Pages\<close>, \<^verbatim>\<open>Files\<close> (the children, as pointers into the heap of nodes), \<^verbatim>\<open>busy\<close>,
  \<^verbatim>\<open>Thumbnail\<close>, and one field behind each of the accessor methods \<^verbatim>\<open>IsDir()\<close>,
  \<^verbatim>\<open>Size()\<close>, \<^verbatim>\<open>MIMEType()\<close> and \<^verbatim>\<open>DirContent()\<close>.
\<close>

record FileInfo =
  IsDir :: bool
  Size :: int
  Pages :: "string list"
  Files :: "nat list"
  busy :: bool
  MIMEType :: string
  Thumbnail :: string
  DirContent :: "byte list"

text \<open>The handle, which points to its node and to the file system: \<^verbatim>\<open>type File struct { buf; offset; info; fs; flag }\<close>.\<close>

record File =
  buf :: Buffer
  offset :: int
  info :: nat
  flag :: Flag

text \<open>
  The \<^verbatim>\<open>FileSystem\<close> a handle points to: its page size, the state \<open>'s\<close> of its blob
  store, the heap of \<^verbatim>\<open>FileInfo\<close> objects (handles hold a pointer \<^verbatim>\<open>*FileInfo\<close>, here
  an address, so two handles on one node share it) and the number of identifiers
  \<^verbatim>\<open>uuid.NewString()\<close> has handed out.
\<close>

record 's FileSystem =
  pageSize :: int
  storage :: 's
  nodes :: "nat \<Rightarrow> FileInfo"
  uuids :: nat

text \<open>
  The collaborators of file.go that live outside it are parameters of the model:
  the two query/update methods of the \<^verbatim>\<open>KVStorage\<close> interface that file.go calls,
  the page codec (\<^verbatim>\<open>EncryptPage\<close> and \<^verbatim>\<open>DecryptPage\<close> work in place on a slice; the
  result is the new content of that slice), \<^verbatim>\<open>httpvalue.DetectContentType\<close>,
  the sequence of strings \<^verbatim>\<open>uuid.NewString()\<close> returns, and the write of the
  serialised tree that \<^verbatim>\<open>SaveFileTree\<close> performs.
\<close>

record 's Collab =
  Get :: "'s \<Rightarrow> string \<Rightarrow> error + byte list"
  Put :: "'s \<Rightarrow> string \<Rightarrow> byte list \<Rightarrow> 's \<times> error option"
  EncryptPage :: "byte list \<Rightarrow> error + byte list"
  DecryptPage :: "byte list \<Rightarrow> error + byte list"
  DetectContentType :: "byte list \<Rightarrow> string"
  NewString :: "nat \<Rightarrow> string"
  PutTree :: "'s \<Rightarrow> (nat \<Rightarrow> FileInfo) \<Rightarrow> 's \<times> error option"

text \<open>
  An in-memory blob store for concrete runs: the blobs by key, and the last tree
  written by \<^verbatim>\<open>SaveFileTree\<close>.
\<close>

record mem =
  blobs :: "string \<rightharpoonup> byte list"
  tree :: "(nat \<Rightarrow> FileInfo) option"

text \<open>
  Modelled from the spec: the mutators of \<^verbatim>\<open>FileInfo\<close> that file.go calls.
  \<^verbatim>\<open>truncate\<close> "resets the node's prior page list and size", \<^verbatim>\<open>addPage\<close> "appends
  that page identifier to the node's page list", \<^verbatim>\<open>setSize\<close> sets the node's size
  and \<^verbatim>\<open>SetMIMEType\<close> records the detected content type.
\<close>

definition truncate :: "FileInfo \<Rightarrow> FileInfo" where
  "truncate fi = fi\<lparr>Pages := [], Size := 0\<rparr>"

definition addPage :: "string \<Rightarrow> FileInfo \<Rightarrow> FileInfo" where
  "addPage page fi = fi\<lparr>Pages := Pages fi @ [page]\<rparr>"

definition setSize :: "int \<Rightarrow> FileInfo \<Rightarrow> FileInfo" where
  "setSize n fi = fi\<lparr>Size := n\<rparr>"

definition SetMIMEType :: "string \<Rightarrow> FileInfo \<Rightarrow> FileInfo" where
  "SetMIMEType t fi = fi\<lparr>MIMEType := t\<rparr>"

text \<open>
  Modelled from the spec: \<^verbatim>\<open>FileSystem.SaveFileTree\<close> is declared outside file.go. It
  writes "the serialized, encrypted form of the entire Node graph" to the blob store.
\<close>

definition SaveFileTree :: "'s Collab \<Rightarrow> 's FileSystem \<Rightarrow> 's FileSystem \<times> error option" where
  "SaveFileTree c fs =
     (case PutTree c (storage fs) (nodes fs) of (st, er) \<Rightarrow> (fs\<lparr>storage := st\<rparr>, er))"

definition upd_info :: "nat \<Rightarrow> (FileInfo \<Rightarrow> FileInfo) \<Rightarrow> 's FileSystem \<Rightarrow> 's FileSystem" where
  "upd_info a g fs = fs\<lparr>nodes := (nodes fs)(a := g (nodes fs a))\<rparr>"

section \<open>The operations of file.go\<close>

subsection \<open>newFile\<close>

definition newFile :: "'s FileSystem \<Rightarrow> nat \<Rightarrow> Flag \<Rightarrow> ('s FileSystem \<times> File) go" where
  "newFile vo info' flag' =
     (if flag' AND ReadOnly \<noteq> 0 \<and> flag' AND WriteOnly \<noteq> 0 then Panic ''invalid flag''
      else Ret (if flag' AND WriteOnly \<noteq> 0 then upd_info info' (\<lambda>fi. fi\<lparr>busy := True\<rparr>) vo else vo,
                \<lparr>buf = [], offset = 0, info = info', flag = flag'\<rparr>))"

subsection \<open>Seek\<close>

definition Seek :: "'s FileSystem \<Rightarrow> File \<Rightarrow> int \<Rightarrow> int \<Rightarrow> (int \<times> error option) \<times> File" where
  "Seek fs f off whence =
     (if IsDir (nodes fs (info f)) then ((0, Some (New ''cannot seek dir'')), f)
      else if flag f AND WriteOnly \<noteq> 0 then ((0, Some (New ''cannot seek in write mode'')), f)
      else if Size (nodes fs (info f)) \<le> off then ((offset f, Some EOF), f)
      else if whence \<noteq> SeekStart \<and> whence \<noteq> SeekCurrent \<and> whence \<noteq> SeekEnd
        then ((offset f, Some (ErrorfInt ''invalid whence'' whence)), f)
      else
        (let abs' = (if whence = SeekStart then off
                     else if whence = SeekCurrent then int64 (offset f + off)
                     else int64 (Size (nodes fs (info f)) + off))
         in if abs' < 0 then ((offset f, Some (ErrorfInt ''negative position'' abs')), f)
            else if Size (nodes fs (info f)) < abs' then ((offset f, Some (ErrorfInt ''overflow'' abs')), f)
            else ((abs', None), f\<lparr>buf := buf_Reset (buf f), offset := abs'\<rparr>)))"

subsection \<open>Readdir\<close>

definition Readdir :: "'s FileSystem \<Rightarrow> File \<Rightarrow> int \<Rightarrow> error + nat list" where
  "Readdir fs f count =
     (if \<not> IsDir (nodes fs (info f)) then Inl (New ''not dir'')
      else Inr (map (\<lambda>fi. fi) (Files (nodes fs (info f)))))"

subsection \<open>Read\<close>

text \<open>
  The block of \<^verbatim>\<open>File.read\<close> guarded by \<^verbatim>\<open>f.buf.Len() == 0\<close>: it loads the page
  numbered \<^verbatim>\<open>f.offset / f.fs.pageSize\<close> into the staging buffer. Go's \<^verbatim>\<open>/\<close> and
  \<^verbatim>\<open>%\<close> truncate towards zero (\<open>sdiv\<close>, \<open>smod\<close>) and panic on a zero divisor;
  indexing \<^verbatim>\<open>f.info.Pages\<close> out of range panics. \<^verbatim>\<open>f.buf.Write\<close> cannot fail, so the
  two error returns after it are dead code and have no branch here. The result is the
  error the block returns with, if any, and the handle.
\<close>

definition loadPage :: "'s Collab \<Rightarrow> 's FileSystem \<Rightarrow> File \<Rightarrow> (error option \<times> File) go" where
  "loadPage c fs f =
     (if pageSize fs = 0 then Panic ''integer divide by zero''
      else
        (let pageIndex = int64 (offset f sdiv pageSize fs) in
         if pageIndex < 0 \<or> int (length (Pages (nodes fs (info f)))) \<le> pageIndex
         then Panic ''index out of range''
         else
           (case Get c (storage fs) (Pages (nodes fs (info f)) ! nat pageIndex) of
              Inl er \<Rightarrow>
                if errors_Is er ErrNotExist then Ret (Some EOF, f)
                else Ret (Some (Errorf ''load page'' er), f)
            | Inr data \<Rightarrow>
                (case DecryptPage c data of
                   Inl er \<Rightarrow> Ret (Some (Errorf ''decrypt'' er), f)
                 | Inr plain \<Rightarrow>
                     (case buf_Grow (buf_Write (buf f) plain) (offset f smod pageSize fs) of
                        Panic m \<Rightarrow> Panic m
                      | Ret b \<Rightarrow> Ret (None, f\<lparr>buf := b\<rparr>))))))"

text \<open>
  \<^verbatim>\<open>File.read(p)\<close> with \<open>n = len(p)\<close>; the bytes returned are the ones copied to the
  front of \<open>p\<close>.
\<close>

definition read :: "'s Collab \<Rightarrow> 's FileSystem \<Rightarrow> File \<Rightarrow> nat \<Rightarrow> ((byte list \<times> error option) \<times> File) go" where
  "read c fs f n =
     (if Size (nodes fs (info f)) \<le> offset f then Ret (([], Some EOF), f)
      else
        (case (if buf_Len (buf f) = 0 then loadPage c fs f else Ret (None, f)) of
           Panic m \<Rightarrow> Panic m
         | Ret (Some er, f1) \<Rightarrow> Ret (([], Some er), f1)
         | Ret (None, f1) \<Rightarrow>
             (case buf_Read (buf f1) n of
                ((bs, er), rest) \<Rightarrow>
                  Ret ((bs, case er of None \<Rightarrow> None
                              | Some e \<Rightarrow> if errors_Is e EOF then None else Some e),
                       f1\<lparr>buf := rest, offset := int64 (offset f1 + int (length bs))\<rparr>))))"

text \<open>
  The loop of \<^verbatim>\<open>File.Read\<close> on a file node: \<open>got\<close> is \<^verbatim>\<open>p[:nRead]\<close>. The loop need
  not terminate (a stored page that decrypts to no bytes is re-read for ever), so not
  returning is the value \<open>None\<close>.
\<close>

partial_function (option) Read_loop ::
  "'s Collab \<Rightarrow> 's FileSystem \<Rightarrow> nat \<Rightarrow> byte list \<Rightarrow> File \<Rightarrow> (((byte list \<times> error option) \<times> File) go) option" where
  "Read_loop c fs nExpected got f =
     (if length got < nExpected then
        (case read c fs f (nExpected - length got) of
           Panic m \<Rightarrow> Some (Panic m)
         | Ret r \<Rightarrow>
             (case snd (fst r) of
                Some er \<Rightarrow> Some (Ret ((got, Some er), snd r))
              | None \<Rightarrow> Read_loop c fs nExpected (got @ fst (fst r)) (snd r)))
      else Some (Ret ((got, None), f)))"

definition Read :: "'s Collab \<Rightarrow> 's FileSystem \<Rightarrow> File \<Rightarrow> nat \<Rightarrow> (((byte list \<times> error option) \<times> File) go) option" where
  "Read c fs f n =
     (if flag f AND WriteOnly \<noteq> 0 then Some (Ret (([], Some ErrPermission), f))
      else if IsDir (nodes fs (info f)) then
        (if offset f < Size (nodes fs (info f)) \<and>
              (offset f < 0 \<or> int (length (DirContent (nodes fs (info f)))) < offset f)
         then Some (Panic ''slice bounds out of range'')
         else
           (let bs = (if offset f < Size (nodes fs (info f))
                      then take n (drop (nat (offset f)) (DirContent (nodes fs (info f))))
                      else []);
                f1 = f\<lparr>offset := int64 (offset f + int (length bs))\<rparr>
            in Some (Ret ((bs, if Size (nodes fs (info f)) \<le> offset f1 then Some EOF else None), f1))))
      else Read_loop c fs n [] f)"

subsection \<open>flush, Write and Close\<close>

text \<open>One pass through the body of the \<^verbatim>\<open>for\<close> loop of \<^verbatim>\<open>File.flush\<close>.\<close>

datatype 's iter =
    Continue "'s FileSystem" File
  | Break "'s FileSystem" File
  | Return error "'s FileSystem" File
  | Panics string

definition after_page :: "error option \<Rightarrow> 's FileSystem \<Rightarrow> File \<Rightarrow> 's iter" where
  "after_page er fs f =
     (case er of None \<Rightarrow> Continue fs f
      | Some e \<Rightarrow> if e \<noteq> EOF then Return e fs f else Break fs f)"

definition flush_iter :: "'s Collab \<Rightarrow> 's FileSystem \<Rightarrow> File \<Rightarrow> 's iter" where
  "flush_iter c fs f =
     (if pageSize fs < 0 then Panics ''makeslice: len out of range''
      else
        (case buf_Read (buf f) (nat (pageSize fs)) of
           ((b, er), rest) \<Rightarrow>
             if 0 < length b then
               (let fs1 = (if offset f = 0 then upd_info (info f) truncate fs else fs);
                    f1 = f\<lparr>buf := rest, offset := int64 (offset f + int (length b))\<rparr>;
                    page = NewString c (uuids fs1);
                    fs2 = fs1\<lparr>uuids := Suc (uuids fs1)\<rparr>
                in case EncryptPage c b of
                     Inl e \<Rightarrow> Return (Errorf ''encrypt'' e) fs2 f1
                   | Inr data \<Rightarrow>
                       (case Put c (storage fs2) page data of
                          (st, Some e) \<Rightarrow> Return (Errorf ''put'' e) (fs2\<lparr>storage := st\<rparr>) f1
                        | (st, None) \<Rightarrow>
                            after_page er (upd_info (info f1) (addPage page) (fs2\<lparr>storage := st\<rparr>)) f1))
             else after_page er fs (f\<lparr>buf := rest\<rparr>)))"

text \<open>
  The loop \<^verbatim>\<open>for all || int64(f.buf.Len()) >= f.fs.pageSize\<close>. With a page size of
  zero it never ends, so not returning is the value \<open>None\<close>. \<open>Ret (None, _)\<close> is the
  loop left by its condition or by \<^verbatim>\<open>break\<close>, \<open>Ret (Some e, _)\<close> is \<^verbatim>\<open>return e\<close>.
\<close>

partial_function (option) flush_loop ::
  "'s Collab \<Rightarrow> bool \<Rightarrow> 's FileSystem \<Rightarrow> File \<Rightarrow> ((error option \<times> 's FileSystem \<times> File) go) option" where
  "flush_loop c all fs f =
     (if all \<or> pageSize fs \<le> buf_Len (buf f) then
        (case flush_iter c fs f of
           Continue fs1 f1 \<Rightarrow> flush_loop c all fs1 f1
         | Break fs1 f1 \<Rightarrow> Some (Ret (None, fs1, f1))
         | Return e fs1 f1 \<Rightarrow> Some (Ret (Some e, fs1, f1))
         | Panics m \<Rightarrow> Some (Panic m))
      else Some (Ret (None, fs, f)))"

definition flush :: "'s Collab \<Rightarrow> bool \<Rightarrow> 's FileSystem \<Rightarrow> File \<Rightarrow> ((error option \<times> 's FileSystem \<times> File) go) option" where
  "flush c all fs f =
     (case flush_loop c all
             (if 0 < buf_Len (buf f) \<and> (offset f = 0 \<or> MIMEType (nodes fs (info f)) = [])
              then upd_info (info f) (SetMIMEType (DetectContentType c (buf_Bytes (buf f)))) fs
              else fs) f of
        None \<Rightarrow> None
      | Some (Panic m) \<Rightarrow> Some (Panic m)
      | Some (Ret (Some e, fs1, f1)) \<Rightarrow> Some (Ret (Some e, fs1, f1))
      | Some (Ret (None, fs1, f1)) \<Rightarrow>
          if all then
            (case SaveFileTree c (upd_info (info f1) (setSize (offset f1)) fs1) of
               (fs2, Some e) \<Rightarrow> Some (Ret (Some (Errorf ''save file info list'' e), fs2, f1))
             | (fs2, None) \<Rightarrow> Some (Ret (None, fs2, f1)))
          else Some (Ret (None, fs1, f1)))"

definition Write :: "'s Collab \<Rightarrow> 's FileSystem \<Rightarrow> File \<Rightarrow> byte list \<Rightarrow> (((int \<times> error option) \<times> 's FileSystem \<times> File) go) option" where
  "Write c fs f p =
     (if flag f AND WriteOnly = 0 then Some (Ret ((0, Some ErrPermission), fs, f))
      else
        (case flush c False fs (f\<lparr>buf := buf_Write (buf f) p\<rparr>) of
           None \<Rightarrow> None
         | Some (Panic m) \<Rightarrow> Some (Panic m)
         | Some (Ret (Some e, fs1, f1)) \<Rightarrow>
             (let n = int (length p) - buf_Len (buf f1)
              in Some (Ret ((if n < 0 then 0 else n, Some e), fs1, f1)))
         | Some (Ret (None, fs1, f1)) \<Rightarrow> Some (Ret ((int (length p), None), fs1, f1))))"

definition Close :: "'s Collab \<Rightarrow> 's FileSystem \<Rightarrow> File \<Rightarrow> ((error option \<times> 's FileSystem \<times> File) go) option" where
  "Close c fs f =
     (if flag f AND WriteOnly \<noteq> 0 \<and> 0 < buf_Len (buf f)
      then flush c True (upd_info (info f) (\<lambda>fi. fi\<lparr>busy := False\<rparr>) fs) f
      else Some (Ret (None, upd_info (info f) (\<lambda>fi. fi\<lparr>busy := False\<rparr>) fs, f\<lparr>offset := 0\<rparr>)))"

section \<open>Concrete collaborators and callers\<close>

text \<open>
  The collaborators for concrete runs: \<open>mem\<close> as the blob store, a codec that flips
  every bit of a page, and the identifiers \<open>p\<close>, \<open>pp\<close>, \<open>ppp\<close>, ...
\<close>

definition memGet :: "mem \<Rightarrow> string \<Rightarrow> error + byte list" where
  "memGet s k = (case blobs s k of None \<Rightarrow> Inl ErrNotExist | Some v \<Rightarrow> Inr v)"

definition memPut :: "mem \<Rightarrow> string \<Rightarrow> byte list \<Rightarrow> mem \<times> error option" where
  "memPut s k v = (s\<lparr>blobs := (blobs s)(k \<mapsto> v)\<rparr>, None)"

definition flipPage :: "byte list \<Rightarrow> error + byte list" where
  "flipPage d = Inr (map (\<lambda>b. NOT b) d)"

definition memCollab :: "mem Collab" where
  "memCollab =
     \<lparr>Get = memGet, Put = memPut, EncryptPage = flipPage, DecryptPage = flipPage,
      DetectContentType = (\<lambda>d. ''application/octet-stream''),
      NewString = (\<lambda>n. replicate (Suc n) CHR ''p''),
      PutTree = (\<lambda>s t. (s\<lparr>tree := Some t\<rparr>, None))\<rparr>"

definition emptyMem :: mem where
  "emptyMem = \<lparr>blobs = Map.empty, tree = None\<rparr>"

text \<open>A new, empty file node and a directory node with two children.\<close>

definition newNode :: FileInfo where
  "newNode = \<lparr>IsDir = False, Size = 0, Pages = [], Files = [], busy = False,
              MIMEType = [], Thumbnail = [], DirContent = []\<rparr>"

definition dirNode :: FileInfo where
  "dirNode = \<lparr>IsDir = True, Size = 0, Pages = [], Files = [1, 2], busy = False,
              MIMEType = [], Thumbnail = [], DirContent = []\<rparr>"

text \<open>A file system with page size \<open>P\<close> over the empty store, every node new.\<close>

definition memFS :: "int \<Rightarrow> mem FileSystem" where
  "memFS P = \<lparr>pageSize = P, storage = emptyMem, nodes = (\<lambda>a. newNode), uuids = 0\<rparr>"

text \<open>
  A caller that writes the chunks \<open>ps\<close> in order through one handle and goes on
  only while \<^verbatim>\<open>Write\<close> returns \<^verbatim>\<open>len(p), nil\<close>.
\<close>

fun write_all :: "'s Collab \<Rightarrow> 's FileSystem \<Rightarrow> File \<Rightarrow> byte list list \<Rightarrow> ('s FileSystem \<times> File) option" where
  "write_all c fs f [] = Some (fs, f)"
| "write_all c fs f (p # ps) =
     (case Write c fs f p of
        Some (Ret ((n, None), fs1, f1)) \<Rightarrow> if n = int (length p) then write_all c fs1 f1 ps else None
      | _ \<Rightarrow> None)"

text \<open>
  A caller that creates a write handle on node \<open>a\<close>, writes the chunks and closes
  the handle; the result is what \<^verbatim>\<open>Close\<close> returned and the file system after it.
\<close>

definition write_then_close ::
  "'s Collab \<Rightarrow> 's FileSystem \<Rightarrow> nat \<Rightarrow> byte list list \<Rightarrow> (error option \<times> 's FileSystem) option" where
  "write_then_close c fs a ps =
     (case newFile fs a WriteOnly of
        Panic m \<Rightarrow> None
      | Ret (fs0, f0) \<Rightarrow>
          (case write_all c fs0 f0 ps of
             None \<Rightarrow> None
           | Some (fs1, f1) \<Rightarrow>
               (case Close c fs1 f1 of
                  Some (Ret (er, fs2, f2)) \<Rightarrow> Some (er, fs2)
                | _ \<Rightarrow> None)))"

text \<open>
  A caller that opens node \<open>a\<close> for reading and calls \<^verbatim>\<open>Read\<close> once with a buffer
  of \<open>n\<close> bytes.
\<close>

definition reopen_read ::
  "'s Collab \<Rightarrow> 's FileSystem \<Rightarrow> nat \<Rightarrow> nat \<Rightarrow> (byte list \<times> error option) option" where
  "reopen_read c fs a n =
     (case newFile fs a ReadOnly of
        Panic m \<Rightarrow> None
      | Ret (fs1, f) \<Rightarrow>
          (case Read c fs1 f n of Some (Ret (r, f1)) \<Rightarrow> Some r | _ \<Rightarrow> None))"

text \<open>
  The round trip: write the chunks to node \<open>a\<close>, close, reopen for reading, read
  with a buffer of \<open>n\<close> bytes. The result is what \<^verbatim>\<open>Read\<close> returned and the size
  the node reports.
\<close>

definition roundtrip ::
  "'s Collab \<Rightarrow> 's FileSystem \<Rightarrow> nat \<Rightarrow> byte list list \<Rightarrow> nat \<Rightarrow> ((byte list \<times> error option) \<times> int) option" where
  "roundtrip c fs a ps n =
     (case write_then_close c fs a ps of
        Some (None, fs1) \<Rightarrow>
          (case reopen_read c fs1 a n of
             Some r \<Rightarrow> Some (r, Size (nodes fs1 a))
           | None \<Rightarrow> None)
      | _ \<Rightarrow> None)"

text \<open>
  What is left in the in-memory store after writing the chunks to node \<open>a\<close> and
  closing: the error of \<^verbatim>\<open>Close\<close>, the node's size, its busy flag, and whether a
  tree has been persisted.
\<close>

definition close_report ::
  "mem FileSystem \<Rightarrow> nat \<Rightarrow> byte list list \<Rightarrow> (error option \<times> int \<times> bool \<times> bool) option" where
  "close_report fs a ps =
     (case write_then_close memCollab fs a ps of
        None \<Rightarrow> None
      | Some (er, fs1) \<Rightarrow>
          Some (er, Size (nodes fs1 a), busy (nodes fs1 a), tree (storage fs1) \<noteq> None))"

text \<open>The bytes of \<^verbatim>\<open>"hello world"\<close>, and the handles \<^verbatim>\<open>newFile\<close> returns on node 0.\<close>

definition hello :: "byte list" where
  "hello = [104, 101, 108, 108, 111, 32, 119, 111, 114, 108, 100]"

definition reader :: File where
  "reader = \<lparr>buf = [], offset = 0, info = 0, flag = ReadOnly\<rparr>"

definition writer :: File where
  "writer = \<lparr>buf = [], offset = 0, info = 0, flag = WriteOnly\<rparr>"

text \<open>
  The file system after \<^verbatim>\<open>"hello world"\<close> has been written to node 0 with page
  size 4 and the handle closed, the same with the page size \<^verbatim>\<open>MinPageSize\<close>, the file
  system in which node 0 has an open write handle, and the one in which node 0 is a
  directory.
\<close>

definition helloFS :: "mem FileSystem" where
  "helloFS = (case write_then_close memCollab (memFS 4) 0 [hello] of
                Some (er, fs) \<Rightarrow> fs
              | None \<Rightarrow> memFS 4)"

definition helloMinFS :: "mem FileSystem" where
  "helloMinFS = (case write_then_close memCollab (memFS MinPageSize) 0 [hello] of
                   Some (er, fs) \<Rightarrow> fs
                 | None \<Rightarrow> memFS MinPageSize)"

definition busyFS :: "mem FileSystem" where
  "busyFS = upd_info 0 (\<lambda>fi. fi\<lparr>busy := True\<rparr>) (memFS 4)"

definition dirFS :: "mem FileSystem" where
  "dirFS = upd_info 0 (\<lambda>fi. dirNode) (memFS 4)"

section \<open>Notions used to state the properties\<close>

text \<open>
  The absolute offset a \<^verbatim>\<open>Seek\<close> request denotes, as an unbounded integer: the offset
  for seek-start, current + offset for seek-current, size + offset for seek-end.
\<close>

definition absolute :: "int \<Rightarrow> int \<Rightarrow> int \<Rightarrow> int \<Rightarrow> int" where
  "absolute cur sz off whence =
     (if whence = SeekStart then off else if whence = SeekCurrent then cur + off else sz + off)"

text \<open>
  The requests \<^verbatim>\<open>Seek\<close> accepts: a file node, a handle that is not write-only, an
  offset argument below the size, a known \<open>whence\<close>, and an absolute offset within
  \<open>[0, size]\<close>.
\<close>

definition seekable :: "'s FileSystem \<Rightarrow> File \<Rightarrow> int \<Rightarrow> int \<Rightarrow> bool" where
  "seekable fs f off whence \<longleftrightarrow>
     \<not> IsDir (nodes fs (info f)) \<and> flag f AND WriteOnly = 0 \<and>
     off < Size (nodes fs (info f)) \<and>
     (whence = SeekStart \<or> whence = SeekCurrent \<or> whence = SeekEnd) \<and>
     0 \<le> absolute (offset f) (Size (nodes fs (info f))) off whence \<and>
     absolute (offset f) (Size (nodes fs (info f))) off whence \<le> Size (nodes fs (info f))"

text \<open>
  What an operation on a handle leaves alone: every node's busy flag and kind, and
  the handle's flag and node.
\<close>

definition frame :: "'s FileSystem \<Rightarrow> File \<Rightarrow> 's FileSystem \<Rightarrow> File \<Rightarrow> bool" where
  "frame fs f fs1 f1 \<longleftrightarrow>
     (\<forall>a. busy (nodes fs1 a) = busy (nodes fs a) \<and> IsDir (nodes fs1 a) = IsDir (nodes fs a)) \<and>
     flag f1 = flag f \<and> info f1 = info f"

text \<open>
  Collaborators that do their job: \<^verbatim>\<open>Put\<close> succeeds, \<^verbatim>\<open>Get\<close> returns what was put
  under a key and other keys keep their blobs; decrypting an encrypted page gives the
  page back; \<^verbatim>\<open>uuid.NewString\<close> never repeats itself; the tree is written without
  error and without touching a page.
\<close>

definition reliable :: "'s Collab \<Rightarrow> bool" where
  "reliable c \<longleftrightarrow>
     (\<forall>s k v. snd (Put c s k v) = None \<and> Get c (fst (Put c s k v)) k = Inr v) \<and>
     (\<forall>s k v k'. k' \<noteq> k \<longrightarrow> Get c (fst (Put c s k v)) k' = Get c s k') \<and>
     (\<forall>d. \<exists>e. EncryptPage c d = Inr e \<and> DecryptPage c e = Inr d) \<and>
     inj (NewString c) \<and>
     (\<forall>s t. snd (PutTree c s t) = None) \<and>
     (\<forall>s t n. Get c (fst (PutTree c s t)) (NewString c n) = Get c s (NewString c n))"

text \<open>
  The decrypted content of the pages of node \<open>a\<close>, in the order of its page list,
  and the lengths of these contents.
\<close>

definition page_contents :: "'s Collab \<Rightarrow> 's FileSystem \<Rightarrow> nat \<Rightarrow> (error + byte list) list" where
  "page_contents c fs a =
     map (\<lambda>k. case Get c (storage fs) k of Inl e \<Rightarrow> Inl e | Inr blob \<Rightarrow> DecryptPage c blob)
       (Pages (nodes fs a))"

definition page_lengths :: "'s Collab \<Rightarrow> 's FileSystem \<Rightarrow> nat \<Rightarrow> (error + nat) list" where
  "page_lengths c fs a =
     map (\<lambda>r. case r of Inl e \<Rightarrow> Inl e | Inr d \<Rightarrow> Inr (length d)) (page_contents c fs a)"

text \<open>
  The state of a write handle on node \<open>a\<close> through which the bytes \<open>D\<close> have been
  written, \<open>n\<close> pages of \<open>P\<close> bytes flushed so far, the first of them under the
  identifier number \<open>u0\<close>.
\<close>

definition flushed ::
  "'s Collab \<Rightarrow> nat \<Rightarrow> nat \<Rightarrow> nat \<Rightarrow> byte list \<Rightarrow> nat \<Rightarrow> 's FileSystem \<Rightarrow> File \<Rightarrow> bool" where
  "flushed c a P u0 D n fs f \<longleftrightarrow>
     pageSize fs = int P \<and> info f = a \<and> flag f AND WriteOnly \<noteq> 0 \<and>
     buf f = drop (n * P) D \<and> offset f = int (min (n * P) (length D)) \<and>
     uuids fs = u0 + n \<and>
     Pages (nodes fs a) = map (NewString c) [u0 ..< u0 + n] \<and>
     page_contents c fs a = map (\<lambda>i. Inr (take P (drop (i * P) D))) [0 ..< n]"

text \<open>
  What the write path before \<^verbatim>\<open>Close\<close> does to sizes: a node's size stays, or is
  reset to 0 by \<^verbatim>\<open>truncate\<close>.
\<close>

definition size_kept :: "'s FileSystem \<Rightarrow> 's FileSystem \<Rightarrow> bool" where
  "size_kept fs fs1 \<longleftrightarrow>
     (\<forall>a. Size (nodes fs1 a) = Size (nodes fs a) \<or> Size (nodes fs1 a) = 0)"

text \<open>
  A file node \<open>a\<close> that holds the bytes \<open>B\<close> in pages of \<open>P\<close> bytes, and a read
  handle on it that has delivered the first \<open>o\<close> bytes: its staging buffer holds the
  rest of the page it is in.
\<close>

definition stored_file :: "'s Collab \<Rightarrow> 's FileSystem \<Rightarrow> nat \<Rightarrow> nat \<Rightarrow> byte list \<Rightarrow> bool" where
  "stored_file c fs a P B \<longleftrightarrow>
     pageSize fs = int P \<and> \<not> IsDir (nodes fs a) \<and> Size (nodes fs a) = int (length B) \<and>
     page_contents c fs a =
       map (\<lambda>i. Inr (take P (drop (i * P) B))) [0 ..< (length B + P - 1) div P]"

definition reading :: "nat \<Rightarrow> nat \<Rightarrow> byte list \<Rightarrow> nat \<Rightarrow> File \<Rightarrow> bool" where
  "reading a P B o' f \<longleftrightarrow>
     info f = a \<and> flag f AND WriteOnly = 0 \<and> offset f = int o' \<and>
     buf f = drop o' (take ((o' + P - 1) div P * P) B)"

section \<open>Evaluating the model\<close>

text \<open>The equations that run the model on a concrete input.\<close>

lemmas run_defs =
  roundtrip_def close_report_def write_then_close_def reopen_read_def
  newFile_def Write_def Close_def flush_def flush_iter_def after_page_def
  Read_def read_def loadPage_def
  buf_Len_def buf_Read_def buf_Write_def buf_Grow_def buf_Bytes_def buf_Reset_def
  upd_info_def truncate_def addPage_def setSize_def SetMIMEType_def SaveFileTree_def
  memCollab_def memGet_def memPut_def flipPage_def emptyMem_def newNode_def memFS_def
  WriteOnly_def ReadOnly_def int64_def Let_def signed_divide_int_def signed_modulo_int_def

lemma reliable_memCollab: "reliable memCollab"
  unfolding reliable_def
  apply (simp add: memCollab_def memPut_def memGet_def flipPage_def comp_def)
  apply (simp add: inj_def)
  done

text \<open>
  Writing \<^verbatim>\<open>"hello world"\<close> with page size 4 leaves three pages of 4, 4 and 3 bytes
  and the size 11, and reading the file back returns the same bytes.
\<close>

lemma helloFS_eval:
  "pageSize helloFS = 4 \<and>
   nodes helloFS 0 =
     \<lparr>IsDir = False, Size = 11, Pages = [''p'', ''pp'', ''ppp''], Files = [], busy = False,
      MIMEType = ''application/octet-stream'', Thumbnail = [], DirContent = []\<rparr> \<and>
   page_contents memCollab helloFS 0 =
     [Inr [104, 101, 108, 108], Inr [111, 32, 119, 111], Inr [114, 108, 100]]"
  by (simp add: helloFS_def hello_def page_contents_def run_defs flush_loop.simps)

lemma roundtrip_hello:
  "roundtrip memCollab (memFS 4) 0 [hello] 12 = Some ((hello, Some EOF), 11)"
  by (simp add: run_defs hello_def flush_loop.simps Read_loop.simps)

lemma close_report_hello:
  "close_report (memFS 4) 0 [hello] = Some (None, 11, False, True)"
  by (simp add: run_defs hello_def flush_loop.simps)

section \<open>64-bit arithmetic\<close>

lemma int64_id: "- (2 ^ 63) \<le> x \<Longrightarrow> x < 2 ^ 63 \<Longrightarrow> int64 x = x"
  by (simp add: int64_def signed_take_bit_int_eq_self)

lemma int64_nat: "int n < 2 ^ 63 \<Longrightarrow> int64 (int n) = int n"
  by (rule int64_id) simp_all

lemma int64_neg_of_high:
  assumes "2 ^ 63 \<le> x" "x < 2 ^ 64"
  shows "int64 x < 0"
proof -
  have "signed_take_bit 63 x \<le> x - 2 ^ Suc 63"
    using assms(1) by (rule signed_take_bit_int_less_eq)
  moreover have "(2::int) ^ Suc 63 = 2 ^ 64" by simp
  ultimately show ?thesis using assms(2) unfolding int64_def by linarith
qed

text \<open>
  A sum of a non-negative offset and an \<^verbatim>\<open>int64\<close> either is computed exactly or
  overflows to a negative number; in the second case the true sum is beyond any size.
\<close>

lemma int64_sum_cases:
  assumes "0 \<le> a" "a < 2 ^ 63" "- (2 ^ 63) \<le> b" "b < 2 ^ 63" and sz: "sz < 2 ^ 63"
  shows "int64 (a + b) = a + b \<or> (sz < a + b \<and> int64 (a + b) < 0)"
proof (cases "a + b < 2 ^ 63")
  case True
  with assms have "int64 (a + b) = a + b" by (intro int64_id) linarith+
  then show ?thesis by simp
next
  case False
  have "a + b < 2 ^ 63 + 2 ^ 63" using assms by linarith
  then have "a + b < 2 ^ 64" by simp
  with False have "int64 (a + b) < 0" by (intro int64_neg_of_high) linarith+
  with False sz show ?thesis by linarith
qed

section \<open>Permission checks (claim C8)\<close>

text \<open>
  C8: \<^verbatim>\<open>Read\<close> on a write-only handle and \<^verbatim>\<open>Write\<close> on a handle that is not
  write-only fail with \<^verbatim>\<open>os.ErrPermission\<close>; the failing call returns 0 bytes and
  leaves the handle (its offset and staging buffer included) and the file system as
  they were.
\<close>

theorem C8_permission:
  "(flag f AND WriteOnly \<noteq> 0 \<longrightarrow>
      Read c fs f n = Some (Ret (([], Some ErrPermission), f))) \<and>
   (flag f AND WriteOnly = 0 \<longrightarrow>
      Write c fs f p = Some (Ret ((0, Some ErrPermission), fs, f)))"
  by (simp add: Read_def Write_def)

theorem C8_permission_witness:
  "flag writer AND WriteOnly \<noteq> 0 \<and>
   Read memCollab helloFS writer 4 = Some (Ret (([], Some ErrPermission), writer)) \<and>
   flag reader AND WriteOnly = 0 \<and>
   Write memCollab helloFS reader [1, 2, 3] = Some (Ret ((0, Some ErrPermission), helloFS, reader))"
  using C8_permission [of writer memCollab helloFS 4 "[1, 2, 3]"]
    C8_permission [of reader memCollab helloFS 4 "[1, 2, 3]"]
  by (simp add: writer_def reader_def WriteOnly_def ReadOnly_def)

section \<open>Readdir (claim C10)\<close>

text \<open>
  C10: on a directory handle \<^verbatim>\<open>Readdir(count)\<close> returns the complete list of the
  directory's children in one call, whatever the count (positive, zero or negative);
  on a node that is not a directory it fails with an error.
\<close>

theorem C10_Readdir:
  "(IsDir (nodes fs (info f)) \<longrightarrow> Readdir fs f count = Inr (Files (nodes fs (info f)))) \<and>
   (\<not> IsDir (nodes fs (info f)) \<longrightarrow> Readdir fs f count = Inl (New ''not dir''))"
  by (simp add: Readdir_def)

theorem C10_Readdir_witness:
  "IsDir (nodes dirFS (info reader)) \<and>
   Readdir dirFS reader 1 = Inr [1, 2] \<and> Readdir dirFS reader 0 = Inr [1, 2] \<and>
   Readdir dirFS reader (- 1) = Inr [1, 2] \<and>
   \<not> IsDir (nodes helloFS (info reader)) \<and> Readdir helloFS reader 1 = Inl (New ''not dir'')"
  using C10_Readdir [of dirFS reader 1] C10_Readdir [of dirFS reader 0]
    C10_Readdir [of dirFS reader "- 1"] C10_Readdir [of helloFS reader 1] helloFS_eval
  by (simp add: dirFS_def dirNode_def reader_def upd_info_def)

section \<open>The flag check of newFile (claim C9)\<close>

text \<open>
  C9 as stated (\<^verbatim>\<open>newFile\<close> panics on the flag that combines read-only and
  write-only) fails: \<^verbatim>\<open>ReadOnly\<close> is \<^verbatim>\<open>os.O_RDONLY\<close>, which is 0, so
  \<^verbatim>\<open>ReadOnly|WriteOnly\<close> is \<^verbatim>\<open>WriteOnly\<close> itself, the flag of every write-open. The
  guard of \<^verbatim>\<open>newFile\<close> tests \<^verbatim>\<open>flag&ReadOnly != 0\<close> and holds for no flag: for
  \<^verbatim>\<open>ReadOnly|WriteOnly\<close> \<^verbatim>\<open>newFile\<close> returns the write handle and marks the node busy.
\<close>

theorem C9_counterexample:
  "newFile (memFS 4) 0 (ReadOnly OR WriteOnly) = Ret (busyFS, writer) \<and>
   newFile (memFS 4) 0 (ReadOnly OR WriteOnly) \<noteq> Panic ''invalid flag''"
  by (simp add: newFile_def busyFS_def writer_def ReadOnly_def WriteOnly_def)

text \<open>
  C9, amended: \<^verbatim>\<open>newFile\<close> panics on no flag and returns a handle that carries the
  flag; no flag has a bit in common with \<^verbatim>\<open>ReadOnly\<close>, and \<^verbatim>\<open>ReadOnly|WriteOnly\<close> is
  \<^verbatim>\<open>WriteOnly\<close>. The mode of a handle is decided by the write-only bit of its flag
  alone, and the two modes exclude each other: on a handle with the bit, \<^verbatim>\<open>Read\<close>
  fails with \<^verbatim>\<open>os.ErrPermission\<close> and \<^verbatim>\<open>Seek\<close> fails with an error; on a handle
  without it, \<^verbatim>\<open>Write\<close> fails with \<^verbatim>\<open>os.ErrPermission\<close>. Each refused call leaves the
  handle as it was. So no handle accepts both \<^verbatim>\<open>Read\<close> and \<^verbatim>\<open>Write\<close>.
\<close>

theorem C9_modes_amended:
  "newFile fs a flg =
     Ret (if flg AND WriteOnly \<noteq> 0 then upd_info a (\<lambda>fi. fi\<lparr>busy := True\<rparr>) fs else fs,
          \<lparr>buf = [], offset = 0, info = a, flag = flg\<rparr>) \<and>
   flg AND ReadOnly = 0 \<and>
   ReadOnly OR WriteOnly = WriteOnly \<and>
   (flag h AND WriteOnly \<noteq> 0 \<longrightarrow>
      Read c fs h n = Some (Ret (([], Some ErrPermission), h)) \<and>
      Seek fs h off whence =
        ((0, Some (New (if IsDir (nodes fs (info h)) then ''cannot seek dir''
                        else ''cannot seek in write mode''))), h)) \<and>
   (flag h AND WriteOnly = 0 \<longrightarrow>
      Write c fs h p = Some (Ret ((0, Some ErrPermission), fs, h)))"
  by (simp add: newFile_def ReadOnly_def WriteOnly_def Read_def Seek_def Write_def)

theorem C9_modes_amended_witness:
  "newFile (memFS 4) 0 (ReadOnly OR WriteOnly) = Ret (busyFS, writer) \<and>
   ReadOnly OR WriteOnly = WriteOnly \<and>
   flag writer AND WriteOnly \<noteq> 0 \<and>
   Read memCollab busyFS writer 4 = Some (Ret (([], Some ErrPermission), writer)) \<and>
   Seek busyFS writer 0 SeekStart = ((0, Some (New ''cannot seek in write mode'')), writer) \<and>
   newFile busyFS 0 ReadOnly = Ret (busyFS, reader) \<and>
   flag reader AND WriteOnly = 0 \<and>
   Write memCollab busyFS reader [1, 2, 3] = Some (Ret ((0, Some ErrPermission), busyFS, reader))"
proof -
  have w: "flag writer AND WriteOnly \<noteq> 0" "flag reader AND WriteOnly = 0"
    "(ReadOnly OR WriteOnly) AND WriteOnly \<noteq> 0" "ReadOnly AND WriteOnly = 0"
    "\<not> IsDir (nodes busyFS (info writer))"
    by (simp_all add: writer_def reader_def WriteOnly_def ReadOnly_def busyFS_def memFS_def
        upd_info_def newNode_def)
  have e: "upd_info 0 (\<lambda>fi. fi\<lparr>busy := True\<rparr>) (memFS 4) = busyFS"
    "\<lparr>buf = [], offset = 0, info = 0, flag = ReadOnly OR WriteOnly\<rparr> = writer"
    "\<lparr>buf = [], offset = 0, info = 0, flag = ReadOnly\<rparr> = reader"
    by (simp_all add: busyFS_def writer_def reader_def WriteOnly_def ReadOnly_def)
  from C9_modes_amended [where fs = "memFS 4" and a = 0 and flg = "ReadOnly OR WriteOnly"]
    C9_modes_amended [where fs = busyFS and a = 0 and flg = ReadOnly and h = writer
      and c = memCollab and n = 4 and off = 0 and whence = SeekStart]
    C9_modes_amended [where fs = busyFS and h = reader and c = memCollab and p = "[1, 2, 3]"]
    w e
  show ?thesis by simp
qed

section \<open>Seek (claim C3)\<close>

text \<open>
  C3 as stated (Seek succeeds if and only if the absolute offset lies within
  \<open>[0, size]\<close>) fails: on a read handle of the 11-byte file, seeking from the start
  to offset 11 denotes the absolute offset 11, which is within \<open>[0, 11]\<close>, and \<^verbatim>\<open>Seek\<close>
  returns \<^verbatim>\<open>io.EOF\<close>, because its first guard refuses every offset argument that is
  not below the size.
\<close>

theorem C3_counterexample:
  "\<not> IsDir (nodes helloFS (info reader)) \<and> flag reader AND WriteOnly = 0 \<and>
   Size (nodes helloFS (info reader)) = 11 \<and>
   absolute (offset reader) 11 11 SeekStart = 11 \<and>
   Seek helloFS reader 11 SeekStart = ((0, Some EOF), reader)"
  using helloFS_eval
  by (simp add: reader_def Seek_def SeekStart_def absolute_def ReadOnly_def WriteOnly_def)

text \<open>
  C3, amended: for a handle whose offset and whose node's size are non-negative
  \<^verbatim>\<open>int64\<close> values, \<^verbatim>\<open>Seek(offset, whence)\<close> succeeds if and only if the node is a
  file, the handle is not write-only, the offset argument is below the size,
  \<open>whence\<close> is seek-start, seek-current or seek-end, and the absolute offset (offset,
  current + offset, size + offset) lies within \<open>[0, size]\<close>. On success it returns the
  absolute offset, empties the staging buffer and sets the handle's offset; in every
  other case it returns an error and leaves the handle unchanged. In particular it
  always fails on directory nodes and on write handles.
\<close>

theorem C3_Seek_amended:
  assumes "0 \<le> offset f" "offset f < 2 ^ 63" "0 \<le> Size (nodes fs (info f))"
    and "Size (nodes fs (info f)) < 2 ^ 63" "- (2 ^ 63) \<le> off" "off < 2 ^ 63"
  shows "(seekable fs f off whence \<longrightarrow>
            Seek fs f off whence =
              ((absolute (offset f) (Size (nodes fs (info f))) off whence, None),
               f\<lparr>buf := [],
                 offset := absolute (offset f) (Size (nodes fs (info f))) off whence\<rparr>)) \<and>
         (\<not> seekable fs f off whence \<longrightarrow>
            snd (fst (Seek fs f off whence)) \<noteq> None \<and> snd (Seek fs f off whence) = f)"
proof -
  define sz where "sz = Size (nodes fs (info f))"
  define cur where "cur = offset f"
  have c: "int64 (cur + off) = cur + off \<or> (sz < cur + off \<and> int64 (cur + off) < 0)"
    unfolding cur_def sz_def using assms by (intro int64_sum_cases)
  have e: "int64 (sz + off) = sz + off \<or> (sz < sz + off \<and> int64 (sz + off) < 0)"
    unfolding cur_def sz_def using assms by (intro int64_sum_cases)
  consider "whence = SeekStart" | "whence = SeekCurrent" | "whence = SeekEnd"
    | "whence \<noteq> SeekStart" "whence \<noteq> SeekCurrent" "whence \<noteq> SeekEnd" by blast
  then show ?thesis
  proof cases
    case 1
    then show ?thesis
      by (simp add: Seek_def seekable_def absolute_def buf_Reset_def Let_def)
  next
    case 2
    then have n: "whence \<noteq> SeekStart" by (simp add: SeekStart_def SeekCurrent_def)
    from c show ?thesis unfolding cur_def sz_def using 2 n
      by (auto simp add: Seek_def seekable_def absolute_def buf_Reset_def Let_def)
  next
    case 3
    then have n: "whence \<noteq> SeekStart" "whence \<noteq> SeekCurrent"
      by (simp_all add: SeekStart_def SeekCurrent_def SeekEnd_def)
    from e show ?thesis unfolding cur_def sz_def using 3 n
      by (auto simp add: Seek_def seekable_def absolute_def buf_Reset_def Let_def)
  next
    case 4
    then show ?thesis
      by (simp add: Seek_def seekable_def)
  qed
qed

theorem C3_Seek_amended_witness:
  "seekable helloFS reader 3 SeekStart \<and>
   Seek helloFS reader 3 SeekStart = ((3, None), reader\<lparr>buf := [], offset := 3\<rparr>) \<and>
   seekable helloFS reader (- 2) SeekEnd \<and>
   Seek helloFS reader (- 2) SeekEnd = ((9, None), reader\<lparr>buf := [], offset := 9\<rparr>) \<and>
   \<not> seekable helloFS reader 11 SeekStart \<and>
   snd (fst (Seek helloFS reader 11 SeekStart)) \<noteq> None \<and>
   snd (Seek helloFS reader 11 SeekStart) = reader"
proof -
  have r: "0 \<le> offset reader" "offset reader < 2 ^ 63" "0 \<le> Size (nodes helloFS (info reader))"
    "Size (nodes helloFS (info reader)) < 2 ^ 63"
    using helloFS_eval by (simp_all add: reader_def)
  have s: "seekable helloFS reader 3 SeekStart" "seekable helloFS reader (- 2) SeekEnd"
    "\<not> seekable helloFS reader 11 SeekStart"
    using helloFS_eval
    by (simp_all add: seekable_def absolute_def reader_def ReadOnly_def WriteOnly_def
        SeekStart_def SeekEnd_def SeekCurrent_def)
  have a: "absolute (offset reader) (Size (nodes helloFS (info reader))) 3 SeekStart = 3"
    "absolute (offset reader) (Size (nodes helloFS (info reader))) (- 2) SeekEnd = 9"
    using helloFS_eval
    by (simp_all add: absolute_def reader_def SeekStart_def SeekEnd_def SeekCurrent_def)
  from C3_Seek_amended [OF r, of 3 SeekStart] C3_Seek_amended [OF r, of "- 2" SeekEnd]
    C3_Seek_amended [OF r, of 11 SeekStart] s a
  show ?thesis by simp
qed

section \<open>What the operations leave alone\<close>

text \<open>
  \<^verbatim>\<open>flush\<close>, and with it \<^verbatim>\<open>Write\<close> and \<^verbatim>\<open>Close\<close>, never changes a busy flag, nor
  the flag or the node of the handle. The loop is followed by the induction rule of
  its definition.
\<close>

lemma frame_refl: "frame fs f fs f"
  by (simp add: frame_def)

lemma frame_trans: "frame fs f fs1 f1 \<Longrightarrow> frame fs1 f1 fs2 f2 \<Longrightarrow> frame fs f fs2 f2"
  by (simp add: frame_def)

lemma after_page_cases:
  "after_page er fs f = Continue fs1 f1 \<or> after_page er fs f = Break fs1 f1 \<or> after_page er fs f = Return e fs1 f1
   \<Longrightarrow> fs1 = fs \<and> f1 = f"
  by (auto simp add: after_page_def split: option.splits if_splits)

lemma flush_iter_frame:
  assumes "flush_iter c fs f = Continue fs1 f1 \<or> flush_iter c fs f = Break fs1 f1 \<or> flush_iter c fs f = Return e fs1 f1"
  shows "frame fs f fs1 f1"
  using assms
  unfolding flush_iter_def Let_def
  apply (simp split: if_splits prod.splits sum.splits option.splits)
  apply (auto dest!: after_page_cases simp add: frame_def upd_info_def truncate_def addPage_def split: if_splits)
  done

lemma flush_loop_frame_aux:
  assumes "flush_loop c all fs f = Some y"
  shows "\<forall>e fs1 f1. y = Ret (e, fs1, f1) \<longrightarrow> frame fs f fs1 f1"
proof (rule flush_loop.raw_induct[where P = "\<lambda>c all fs f y. \<forall>e fs1 f1. y = Ret (e, fs1, f1) \<longrightarrow> frame fs f fs1 f1", OF _ assms])
  fix floop :: "'a Collab \<Rightarrow> bool \<Rightarrow> 'a FileSystem \<Rightarrow> File \<Rightarrow> ((error option \<times> 'a FileSystem \<times> File) go) option"
  fix c all fs f y
  assume IH: "\<And>c all fs f y. floop c all fs f = Some y \<Longrightarrow> \<forall>e fs1 f1. y = Ret (e, fs1, f1) \<longrightarrow> frame fs f fs1 f1"
  assume body: "(if all \<or> pageSize fs \<le> buf_Len (buf f) then
        (case flush_iter c fs f of
           Continue fs1 f1 \<Rightarrow> floop c all fs1 f1
         | Break fs1 f1 \<Rightarrow> Some (Ret (None, fs1, f1))
         | Return e fs1 f1 \<Rightarrow> Some (Ret (Some e, fs1, f1))
         | Panics m \<Rightarrow> Some (Panic m))
      else Some (Ret (None, fs, f))) = Some y"
  show "\<forall>e fs1 f1. y = Ret (e, fs1, f1) \<longrightarrow> frame fs f fs1 f1"
  proof (cases "all \<or> pageSize fs \<le> buf_Len (buf f)")
    case False
    with body show ?thesis by (auto simp add: frame_refl)
  next
    case True
    show ?thesis
    proof (cases "flush_iter c fs f")
      case (Continue fs' f')
      with True body have "floop c all fs' f' = Some y" by simp
      from IH[OF this] flush_iter_frame[of c fs f fs' f'] Continue
      show ?thesis by (blast intro: frame_trans)
    next
      case (Break fs' f')
      with True body flush_iter_frame[of c fs f fs' f'] show ?thesis by auto
    next
      case (Return e' fs' f')
      with True body flush_iter_frame[of c fs f fs' f' e'] show ?thesis by auto
    next
      case (Panics m)
      with True body show ?thesis by auto
    qed
  qed
qed

lemma flush_loop_frame:
  "flush_loop c all fs f = Some y \<Longrightarrow> y = Ret (e, fs1, f1) \<Longrightarrow> frame fs f fs1 f1"
  using flush_loop_frame_aux by blast

lemma flush_frame:
  assumes "flush c all fs f = Some (Ret (e, fs1, f1))"
  shows "frame fs f fs1 f1"
proof -
  define fs0 where "fs0 = (if 0 < buf_Len (buf f) \<and> (offset f = 0 \<or> MIMEType (nodes fs (info f)) = [])
              then upd_info (info f) (SetMIMEType (DetectContentType c (buf_Bytes (buf f)))) fs
              else fs)"
  have f0: "frame fs f fs0 f" by (simp add: fs0_def frame_def upd_info_def SetMIMEType_def)
  from assms obtain y where y: "flush_loop c all fs0 f = Some y"
    unfolding flush_def fs0_def by (auto split: option.splits)
  show ?thesis
  proof (cases y)
    case (Panic m)
    with assms y show ?thesis unfolding flush_def fs0_def by simp
  next
    case (Ret r)
    obtain e' fs' f' where r: "r = (e', fs', f')" by (cases r) 
    from flush_loop_frame[OF y] Ret r have f1: "frame fs0 f fs' f'" by simp
    show ?thesis
    proof (cases e')
      case (Some a)
      with assms y Ret r have "fs1 = fs'" "f1 = f'" unfolding flush_def fs0_def by simp_all
      with f0 f1 show ?thesis by (blast intro: frame_trans)
    next
      case None
      with assms y Ret r have "f1 = f' \<and> frame fs' f' fs1 f1" unfolding flush_def fs0_def
        by (auto simp add: SaveFileTree_def frame_def upd_info_def setSize_def split: if_splits prod.splits option.splits)
      with f0 f1 show ?thesis by (blast intro: frame_trans)
    qed
  qed
qed

lemma Write_frame:
  assumes "Write c fs f p = Some (Ret (r, fs1, f1))"
  shows "frame fs f fs1 f1"
proof (cases "flag f AND WriteOnly = 0")
  case True
  with assms show ?thesis by (simp add: Write_def frame_refl)
next
  case False
  with assms obtain e where "flush c False fs (f\<lparr>buf := buf_Write (buf f) p\<rparr>) = Some (Ret (e, fs1, f1))"
    unfolding Write_def by (auto split: option.splits go.splits prod.splits simp add: Let_def)
  from flush_frame[OF this] show ?thesis by (simp add: frame_def)
qed

lemma Close_busy:
  assumes "Close c fs f = Some (Ret (e, fs1, f1))"
  shows "\<not> busy (nodes fs1 (info f)) \<and> flag f1 = flag f \<and> info f1 = info f"
proof (cases "flag f AND WriteOnly \<noteq> 0 \<and> 0 < buf_Len (buf f)")
  case True
  with assms have "flush c True (upd_info (info f) (\<lambda>fi. fi\<lparr>busy := False\<rparr>) fs) f = Some (Ret (e, fs1, f1))"
    by (simp add: Close_def)
  from flush_frame[OF this] show ?thesis by (simp add: frame_def upd_info_def)
next
  case False
  with assms show ?thesis by (auto simp add: Close_def upd_info_def)
qed

section \<open>Write and Close return\<close>

text \<open>
  With a positive page size every pass through the loop of \<^verbatim>\<open>File.flush\<close> that goes
  on takes at least one byte out of the staging buffer, so the loop ends: \<^verbatim>\<open>flush\<close>,
  \<^verbatim>\<open>Write\<close> and \<^verbatim>\<open>Close\<close> return, with or without an error, whatever the
  collaborators do.
\<close>

lemma flush_iter_progress:
  assumes "0 < pageSize fs"
  shows "(case flush_iter c fs f of
            Continue fs1 f1 \<Rightarrow> pageSize fs1 = pageSize fs \<and> length (buf f1) < length (buf f)
          | Panics m \<Rightarrow> False
          | _ \<Rightarrow> True)"
  using assms
  by (auto simp add: flush_iter_def buf_Read_def after_page_def upd_info_def Let_def
      split: sum.splits prod.splits option.splits if_splits)

lemma flush_loop_returns:
  "0 < pageSize fs \<Longrightarrow> \<exists>e fs1 f1. flush_loop c all fs f = Some (Ret (e, fs1, f1))"
proof (induction "length (buf f)" arbitrary: fs f rule: less_induct)
  case less
  show ?case
  proof (cases "all \<or> pageSize fs \<le> buf_Len (buf f)")
    case False
    then show ?thesis by (subst flush_loop.simps) simp
  next
    case True
    show ?thesis
    proof (cases "flush_iter c fs f")
      case (Continue fs1 f1)
      with flush_iter_progress [OF less.prems, where c = c and f = f]
      have "pageSize fs1 = pageSize fs" "length (buf f1) < length (buf f)" by simp_all
      with less.hyps [where f = f1 and fs = fs1] less.prems
      obtain e fs2 f2 where "flush_loop c all fs1 f1 = Some (Ret (e, fs2, f2))" by auto
      with True Continue show ?thesis by (subst flush_loop.simps) simp
    next
      case (Break fs1 f1)
      with True show ?thesis by (subst flush_loop.simps) simp
    next
      case (Return e fs1 f1)
      with True show ?thesis by (subst flush_loop.simps) simp
    next
      case (Panics m)
      with flush_iter_progress [OF less.prems, where c = c and f = f] show ?thesis by simp
    qed
  qed
qed

lemma flush_returns:
  assumes "0 < pageSize fs"
  shows "\<exists>e fs1 f1. flush c all fs f = Some (Ret (e, fs1, f1))"
proof -
  define fs0 where "fs0 = (if 0 < buf_Len (buf f) \<and> (offset f = 0 \<or> MIMEType (nodes fs (info f)) = [])
              then upd_info (info f) (SetMIMEType (DetectContentType c (buf_Bytes (buf f)))) fs
              else fs)"
  have "0 < pageSize fs0" using assms by (simp add: fs0_def upd_info_def)
  from flush_loop_returns [OF this, where c = c and all = all and f = f]
  obtain e fs1 f1 where "flush_loop c all fs0 f = Some (Ret (e, fs1, f1))" by blast
  then show ?thesis
    unfolding flush_def fs0_def [symmetric]
    by (cases e; cases "SaveFileTree c (upd_info (info f1) (setSize (offset f1)) fs1)")
       (auto split: option.splits)
qed

lemma Write_returns:
  assumes "0 < pageSize fs"
  shows "\<exists>r fs1 f1. Write c fs f p = Some (Ret (r, fs1, f1))"
proof -
  from flush_returns [OF assms, where c = c and all = False and f = "f\<lparr>buf := buf_Write (buf f) p\<rparr>"]
  obtain e fs1 f1 where "flush c False fs (f\<lparr>buf := buf_Write (buf f) p\<rparr>) = Some (Ret (e, fs1, f1))"
    by blast
  then show ?thesis by (cases e) (simp_all add: Write_def Let_def)
qed

lemma Close_returns:
  assumes "0 < pageSize fs"
  shows "\<exists>e fs1 f1. Close c fs f = Some (Ret (e, fs1, f1))"
proof -
  have "0 < pageSize (upd_info (info f) (\<lambda>fi. fi\<lparr>busy := False\<rparr>) fs)"
    using assms by (simp add: upd_info_def)
  from flush_returns [OF this, where c = c and all = True and f = f] show ?thesis
    by (simp add: Close_def)
qed

section \<open>The busy flag (claim C6)\<close>

text \<open>
  C6 as stated (a read handle never modifies the busy flag; closing a read handle
  does not clear a flag set by a still-open write handle) fails: node 0 gets a write
  handle, which sets the flag, then a read handle; closing the read handle clears the
  flag although the write handle has not been closed.
\<close>

theorem C6_counterexample:
  "newFile (memFS 4) 0 WriteOnly = Ret (busyFS, writer) \<and>
   busy (nodes busyFS 0) \<and>
   newFile busyFS 0 ReadOnly = Ret (busyFS, reader) \<and>
   Close memCollab busyFS reader =
     Some (Ret (None, upd_info 0 (\<lambda>fi. fi\<lparr>busy := False\<rparr>) busyFS, reader)) \<and>
   \<not> busy (nodes (upd_info 0 (\<lambda>fi. fi\<lparr>busy := False\<rparr>) busyFS) 0)"
  by (simp add: busyFS_def writer_def reader_def run_defs)

text \<open>
  C6, amended: creating a handle with the write-only flag sets the node's busy flag;
  creating a handle without it leaves the file system as it is. On a file system
  with a positive page size, \<^verbatim>\<open>Write\<close> returns and changes no busy flag (\<^verbatim>\<open>Read\<close>,
  \<^verbatim>\<open>Seek\<close> and \<^verbatim>\<open>Readdir\<close> return no file system: they cannot), and \<^verbatim>\<open>Close\<close> of any
  handle, write-only or not, returns and leaves the busy flag of the handle's node
  cleared. The \<^verbatim>\<open>Close\<close> of a handle that is not write-only returns nil for every
  page size, with no other effect on the file system: it also clears a flag set by
  a write handle that is still open.
\<close>

theorem C6_busy_amended:
  "(flg AND WriteOnly \<noteq> 0 \<longrightarrow>
      (\<exists>f. newFile fs a flg = Ret (upd_info a (\<lambda>fi. fi\<lparr>busy := True\<rparr>) fs, f)) \<and>
      busy (nodes (upd_info a (\<lambda>fi. fi\<lparr>busy := True\<rparr>) fs) a)) \<and>
   (flg AND WriteOnly = 0 \<longrightarrow> (\<exists>f. newFile fs a flg = Ret (fs, f))) \<and>
   (0 < pageSize fs \<longrightarrow>
      (\<exists>r fs1 h1. Write c fs h p = Some (Ret (r, fs1, h1)) \<and>
                  (\<forall>b. busy (nodes fs1 b) = busy (nodes fs b)))) \<and>
   (0 < pageSize fs \<longrightarrow>
      (\<exists>e fs2 h2. Close c fs h = Some (Ret (e, fs2, h2)) \<and> \<not> busy (nodes fs2 (info h)))) \<and>
   (flag h AND WriteOnly = 0 \<longrightarrow>
      Close c fs h =
        Some (Ret (None, upd_info (info h) (\<lambda>fi. fi\<lparr>busy := False\<rparr>) fs, h\<lparr>offset := 0\<rparr>)) \<and>
      \<not> busy (nodes (upd_info (info h) (\<lambda>fi. fi\<lparr>busy := False\<rparr>) fs) (info h)))"
proof -
  have n: "newFile fs a flg =
     Ret (if flg AND WriteOnly \<noteq> 0 then upd_info a (\<lambda>fi. fi\<lparr>busy := True\<rparr>) fs else fs,
          \<lparr>buf = [], offset = 0, info = a, flag = flg\<rparr>)"
    by (simp add: newFile_def ReadOnly_def)
  have w: "busy (nodes fs1 b) = busy (nodes fs b)" if "Write c fs h p = Some (Ret (r, fs1, h1))"
    for r fs1 h1 b
    using Write_frame [OF that] by (simp add: frame_def)
  have cl: "\<not> busy (nodes fs2 (info h))" if "Close c fs h = Some (Ret (e, fs2, h2))"
    for e fs2 h2
    using Close_busy [OF that] by simp
  have wt: "\<exists>r fs1 h1. Write c fs h p = Some (Ret (r, fs1, h1)) \<and>
                  (\<forall>b. busy (nodes fs1 b) = busy (nodes fs b))" if "0 < pageSize fs"
    using Write_returns [OF that, where c = c and f = h and p = p] w by blast
  have ct: "\<exists>e fs2 h2. Close c fs h = Some (Ret (e, fs2, h2)) \<and> \<not> busy (nodes fs2 (info h))"
    if "0 < pageSize fs"
    using Close_returns [OF that, where c = c and f = h] cl by blast
  have rd: "Close c fs h =
        Some (Ret (None, upd_info (info h) (\<lambda>fi. fi\<lparr>busy := False\<rparr>) fs, h\<lparr>offset := 0\<rparr>))"
    if "flag h AND WriteOnly = 0"
    using that by (simp add: Close_def)
  have b: "busy (nodes (upd_info a' (\<lambda>fi. fi\<lparr>busy := v\<rparr>) fs) a') = v" for a' v
    by (simp add: upd_info_def)
  show ?thesis using n wt ct rd b by (intro conjI impI) simp_all
qed

theorem C6_busy_amended_witness:
  "WriteOnly AND WriteOnly \<noteq> 0 \<and>
   newFile (memFS 4) 0 WriteOnly = Ret (upd_info 0 (\<lambda>fi. fi\<lparr>busy := True\<rparr>) (memFS 4), writer) \<and>
   busy (nodes (upd_info 0 (\<lambda>fi. fi\<lparr>busy := True\<rparr>) (memFS 4)) 0) \<and>
   ReadOnly AND WriteOnly = 0 \<and>
   newFile busyFS 0 ReadOnly = Ret (busyFS, reader) \<and>
   0 < pageSize busyFS \<and>
   Write memCollab busyFS writer [1, 2, 3] =
     Some (Ret ((3, None), upd_info 0 (SetMIMEType ''application/octet-stream'') busyFS,
                writer\<lparr>buf := [1, 2, 3]\<rparr>)) \<and>
   busy (nodes busyFS 0) \<and>
   busy (nodes (upd_info 0 (SetMIMEType ''application/octet-stream'') busyFS) 0) \<and>
   0 < pageSize (upd_info 0 (SetMIMEType ''application/octet-stream'') busyFS) \<and>
   (\<exists>fs2. Close memCollab (upd_info 0 (SetMIMEType ''application/octet-stream'') busyFS)
             (writer\<lparr>buf := [1, 2, 3]\<rparr>) =
             Some (Ret (None, fs2, writer\<lparr>offset := 3\<rparr>)) \<and>
          \<not> busy (nodes fs2 0)) \<and>
   close_report (memFS 4) 0 [[1, 2, 3]] = Some (None, 3, False, True) \<and>
   flag reader AND WriteOnly = 0 \<and>
   Close memCollab busyFS reader =
     Some (Ret (None, upd_info 0 (\<lambda>fi. fi\<lparr>busy := False\<rparr>) busyFS, reader)) \<and>
   \<not> busy (nodes (upd_info 0 (\<lambda>fi. fi\<lparr>busy := False\<rparr>) busyFS) 0)"
proof -
  let ?fsW = "upd_info 0 (SetMIMEType ''application/octet-stream'') busyFS"
  let ?hW = "writer\<lparr>buf := [1, 2, 3]\<rparr>"
  have w: "WriteOnly AND WriteOnly \<noteq> 0" "ReadOnly AND WriteOnly = 0" "flag reader AND WriteOnly = 0"
    by (simp_all add: WriteOnly_def ReadOnly_def reader_def)
  have r: "reader\<lparr>offset := 0\<rparr> = reader" "info reader = 0" "info ?hW = 0"
    by (simp_all add: reader_def writer_def)
  have n: "newFile (memFS 4) 0 WriteOnly = Ret (upd_info 0 (\<lambda>fi. fi\<lparr>busy := True\<rparr>) (memFS 4), writer)"
    "newFile busyFS 0 ReadOnly = Ret (busyFS, reader)"
    by (simp_all add: newFile_def writer_def reader_def WriteOnly_def ReadOnly_def)
  have p: "0 < pageSize busyFS" "0 < pageSize ?fsW" "busy (nodes busyFS 0)"
    by (simp_all add: busyFS_def memFS_def upd_info_def)
  have wr: "Write memCollab busyFS writer [1, 2, 3] = Some (Ret ((3, None), ?fsW, ?hW))"
    by (simp add: busyFS_def writer_def run_defs flush_loop.simps)
  have cr: "close_report (memFS 4) 0 [[1, 2, 3]] = Some (None, 3, False, True)"
    by (simp add: run_defs flush_loop.simps)
  have cw: "\<exists>fs2. Close memCollab ?fsW ?hW = Some (Ret (None, fs2, writer\<lparr>offset := 3\<rparr>))"
    by (simp add: busyFS_def writer_def run_defs flush_loop.simps)
  from C6_busy_amended [where fs = ?fsW and c = memCollab and h = ?hW] p r
  have "\<exists>e fs2 h2. Close memCollab ?fsW ?hW = Some (Ret (e, fs2, h2)) \<and> \<not> busy (nodes fs2 0)"
    by simp
  with cw have cb: "\<exists>fs2. Close memCollab ?fsW ?hW = Some (Ret (None, fs2, writer\<lparr>offset := 3\<rparr>)) \<and>
          \<not> busy (nodes fs2 0)"
    by auto
  from C6_busy_amended [where flg = WriteOnly and fs = "memFS 4" and a = 0]
    C6_busy_amended [where fs = busyFS and c = memCollab and h = writer and p = "[1, 2, 3]"]
    C6_busy_amended [where fs = busyFS and c = memCollab and h = reader]
    w r n p wr
  have "busy (nodes (upd_info 0 (\<lambda>fi. fi\<lparr>busy := True\<rparr>) (memFS 4)) 0)"
    "busy (nodes ?fsW 0)"
    "Close memCollab busyFS reader =
       Some (Ret (None, upd_info 0 (\<lambda>fi. fi\<lparr>busy := False\<rparr>) busyFS, reader))"
    "\<not> busy (nodes (upd_info 0 (\<lambda>fi. fi\<lparr>busy := False\<rparr>) busyFS) 0)"
    by simp_all
  with w n p wr cr cb show ?thesis by simp
qed

section \<open>No closed state (claim C7)\<close>

text \<open>
  C7 as stated (every operation on a closed handle fails) fails: the handle has no
  closed state. After \<^verbatim>\<open>Close\<close> on a read handle of the 11-byte file, \<^verbatim>\<open>Seek\<close> and
  \<^verbatim>\<open>Read\<close> on that handle succeed.
\<close>

theorem C7_counterexample:
  "Close memCollab helloFS reader =
     Some (Ret (None, upd_info 0 (\<lambda>fi. fi\<lparr>busy := False\<rparr>) helloFS, reader)) \<and>
   Seek (upd_info 0 (\<lambda>fi. fi\<lparr>busy := False\<rparr>) helloFS) reader 3 SeekStart =
     ((3, None), reader\<lparr>offset := 3\<rparr>) \<and>
   Read memCollab (upd_info 0 (\<lambda>fi. fi\<lparr>busy := False\<rparr>) helloFS) reader 4 =
     Some (Ret (([104, 101, 108, 108], None), reader\<lparr>offset := 4\<rparr>))"
  by (simp add: helloFS_def hello_def reader_def Seek_def SeekStart_def run_defs
      flush_loop.simps Read_loop.simps)

text \<open>
  C7, amended: every handle is created in the open-read or the open-write state, as
  its flag says, at offset 0 with an empty staging buffer, and \<^verbatim>\<open>Close\<close> does not take
  it to a closed state: a handle keeps its flag and its node over \<^verbatim>\<open>Close\<close>, the
  \<^verbatim>\<open>Close\<close> of a handle that is not write-only returns nil and only resets the offset
  to 0, and operations after \<^verbatim>\<open>Close\<close> are not refused: on the closed read handle of a
  file node, \<^verbatim>\<open>Seek\<close> from the start to any offset in \<open>[0, size)\<close> succeeds.
\<close>

theorem C7_no_closed_state_amended:
  "newFile fs a flg =
     Ret (if flg AND WriteOnly \<noteq> 0 then upd_info a (\<lambda>fi. fi\<lparr>busy := True\<rparr>) fs else fs,
          \<lparr>buf = [], offset = 0, info = a, flag = flg\<rparr>) \<and>
   (Close c fs h = Some (Ret (e, fs1, h1)) \<longrightarrow> flag h1 = flag h \<and> info h1 = info h) \<and>
   (flag h AND WriteOnly = 0 \<longrightarrow>
      Close c fs h =
        Some (Ret (None, upd_info (info h) (\<lambda>fi. fi\<lparr>busy := False\<rparr>) fs, h\<lparr>offset := 0\<rparr>))) \<and>
   (flag h AND WriteOnly = 0 \<and> \<not> IsDir (nodes fs (info h)) \<and>
    0 \<le> off \<and> off < Size (nodes fs (info h)) \<longrightarrow>
      Seek (upd_info (info h) (\<lambda>fi. fi\<lparr>busy := False\<rparr>) fs) (h\<lparr>offset := 0\<rparr>) off SeekStart =
        ((off, None), h\<lparr>buf := [], offset := off\<rparr>))"
proof -
  have n: "newFile fs a flg =
     Ret (if flg AND WriteOnly \<noteq> 0 then upd_info a (\<lambda>fi. fi\<lparr>busy := True\<rparr>) fs else fs,
          \<lparr>buf = [], offset = 0, info = a, flag = flg\<rparr>)"
    by (simp add: newFile_def ReadOnly_def)
  have cl: "flag h1 = flag h \<and> info h1 = info h" if "Close c fs h = Some (Ret (e, fs1, h1))"
    using Close_busy [OF that] by simp
  have rd: "Close c fs h =
        Some (Ret (None, upd_info (info h) (\<lambda>fi. fi\<lparr>busy := False\<rparr>) fs, h\<lparr>offset := 0\<rparr>))"
    if "flag h AND WriteOnly = 0"
    using that by (simp add: Close_def)
  have sk: "Seek (upd_info (info h) (\<lambda>fi. fi\<lparr>busy := False\<rparr>) fs) (h\<lparr>offset := 0\<rparr>) off SeekStart =
        ((off, None), h\<lparr>buf := [], offset := off\<rparr>)"
    if "flag h AND WriteOnly = 0" "\<not> IsDir (nodes fs (info h))" "0 \<le> off" "off < Size (nodes fs (info h))"
    using that by (simp add: Seek_def upd_info_def buf_Reset_def Let_def)
  show ?thesis using n cl rd sk by simp
qed

theorem C7_no_closed_state_amended_witness:
  "newFile helloFS 0 ReadOnly = Ret (helloFS, reader) \<and>
   flag reader AND WriteOnly = 0 \<and>
   Close memCollab helloFS reader =
     Some (Ret (None, upd_info 0 (\<lambda>fi. fi\<lparr>busy := False\<rparr>) helloFS, reader)) \<and>
   flag reader = flag reader \<and>
   \<not> IsDir (nodes helloFS (info reader)) \<and> (0::int) \<le> 3 \<and> 3 < Size (nodes helloFS (info reader)) \<and>
   Seek (upd_info 0 (\<lambda>fi. fi\<lparr>busy := False\<rparr>) helloFS) reader 3 SeekStart =
     ((3, None), reader\<lparr>buf := [], offset := 3\<rparr>)"
proof -
  have w: "ReadOnly AND WriteOnly = 0" "flag reader AND WriteOnly = 0"
    by (simp_all add: WriteOnly_def ReadOnly_def reader_def)
  have r: "reader\<lparr>offset := 0\<rparr> = reader" "info reader = 0"
    "\<lparr>buf = [], offset = 0, info = 0, flag = ReadOnly\<rparr> = reader"
    by (simp_all add: reader_def)
  have h: "\<not> IsDir (nodes helloFS (info reader))" "3 < Size (nodes helloFS (info reader))"
    using helloFS_eval by (simp_all add: reader_def)
  from C7_no_closed_state_amended [where fs = helloFS and a = 0 and flg = ReadOnly
      and c = memCollab and h = reader and e = None
      and ?fs1.0 = "upd_info 0 (\<lambda>fi. fi\<lparr>busy := False\<rparr>) helloFS" and ?h1.0 = reader
      and off = 3] w r h
  show ?thesis by simp
qed

section \<open>Page chunking (claim C4)\<close>

text \<open>
  The write path keeps the invariant \<open>flushed\<close>: one pass of the loop of \<^verbatim>\<open>flush\<close>
  stores the oldest page of the staging buffer, the loop runs as long as a full page
  (or, on close, any byte) is left, and it terminates because the buffer shrinks.
\<close>

lemma reliable_encrypt:
  assumes "reliable c"
  obtains e where "EncryptPage c d = Inr e" "DecryptPage c e = Inr d"
  using assms unfolding reliable_def by blast

lemma reliable_put:
  assumes "reliable c"
  obtains st where "Put c s k v = (st, None)" "Get c st k = Inr v"
    "\<And>k'. k' \<noteq> k \<Longrightarrow> Get c st k' = Get c s k'"
proof -
  from assms have "snd (Put c s k v) = None" "Get c (fst (Put c s k v)) k = Inr v"
    "\<And>k'. k' \<noteq> k \<Longrightarrow> Get c (fst (Put c s k v)) k' = Get c s k'"
    unfolding reliable_def by blast+
  then show ?thesis using that[of "fst (Put c s k v)"] by (cases "Put c s k v") auto
qed

lemma reliable_inj: "reliable c \<Longrightarrow> NewString c i = NewString c j \<Longrightarrow> i = j"
  unfolding reliable_def by (blast dest: injD)

text \<open>one page leaves a non-empty buffer\<close>
lemma flush_iter_page:
  assumes rel: "reliable c" and P: "0 < P" and inv: "flushed c a P u0 D n fs f"
    and more: "n * P < length D" and bound: "int (length D) < 2 ^ 63"
  shows "\<exists>fs' f'. flush_iter c fs f = Continue fs' f' \<and> flushed c a P u0 D (Suc n) fs' f'"
proof -
  define b where "b = take P (drop (n * P) D)"
  define page where "page = NewString c (u0 + n)"
  from inv have ps: "pageSize fs = int P" and inf: "info f = a" and fl: "flag f AND WriteOnly \<noteq> 0"
    and bf: "buf f = drop (n * P) D" and off: "offset f = int (min (n * P) (length D))"
    and uu: "uuids fs = u0 + n" and pg: "Pages (nodes fs a) = map (NewString c) [u0 ..< u0 + n]"
    and pc: "page_contents c fs a = map (\<lambda>i. Inr (take P (drop (i * P) D))) [0 ..< n]"
    unfolding flushed_def by blast+
  have bne: "buf f \<noteq> []" using more bf by simp
  have lb: "length b = min P (length D - n * P)" by (simp add: b_def)
  have lb0: "0 < length b" using P more lb by simp
  have rd: "buf_Read (buf f) (nat (pageSize fs)) = ((b, None), drop (Suc n * P) D)"
    using bne by (simp add: buf_Read_def ps bf b_def add.commute)
  obtain e where enc: "EncryptPage c b = Inr e" and dec: "DecryptPage c e = Inr b"
    using reliable_encrypt[OF rel] by blast
  define fs1 where "fs1 = (if offset f = 0 then upd_info (info f) truncate fs else fs)"
  have "offset f = int (n * P)" using off more by simp
  then have z: "offset f = 0 \<longleftrightarrow> n = 0" using P by simp
  have pg1: "Pages (nodes fs1 a) = map (NewString c) [u0 ..< u0 + n]"
    using pg z inf by (auto simp add: fs1_def upd_info_def truncate_def)
  have st1: "storage fs1 = storage fs" "uuids fs1 = uuids fs" "pageSize fs1 = pageSize fs"
    by (simp_all add: fs1_def upd_info_def)
  obtain st where put: "Put c (storage fs) page e = (st, None)" and g1: "Get c st page = Inr e"
    and g2: "\<And>k'. k' \<noteq> page \<Longrightarrow> Get c st k' = Get c (storage fs) k'"
    using reliable_put[OF rel] by blast
  define f' where "f' = f\<lparr>buf := drop (Suc n * P) D, offset := int64 (offset f + int (length b))\<rparr>"
  define fs' where "fs' = upd_info a (addPage page) (fs1\<lparr>uuids := Suc (uuids fs1), storage := st\<rparr>)"
  have it: "flush_iter c fs f = Continue fs' f'"
    unfolding flush_iter_def using ps rd lb0 enc put
    by (simp add: Let_def fs1_def[symmetric] st1 uu page_def[symmetric] after_page_def fs'_def f'_def inf)
  have o1: "offset f + int (length b) = int (min (Suc n * P) (length D))"
  proof -
    define m where "m = n * P"
    have "m < length D" using more by (simp add: m_def)
    moreover have "offset f = int m" using off more by (simp add: m_def)
    moreover have "length b = min P (length D - m)" using lb by (simp add: m_def)
    moreover have "Suc n * P = P + m" by (simp add: m_def)
    ultimately show ?thesis by (simp add: min_def; arith)
  qed
  have "int (min (Suc n * P) (length D)) < 2 ^ 63" using bound by (simp add: min_def)
  then have o2: "offset f' = int (min (Suc n * P) (length D))"
    unfolding f'_def using o1 by (simp add: int64_nat)
  have pages': "Pages (nodes fs' a) = map (NewString c) [u0 ..< u0 + Suc n]"
    using pg1 by (simp add: fs'_def upd_info_def addPage_def page_def)
  have old: "(case Get c st k of Inl e \<Rightarrow> Inl e | Inr blob \<Rightarrow> DecryptPage c blob) =
             (case Get c (storage fs) k of Inl e \<Rightarrow> Inl e | Inr blob \<Rightarrow> DecryptPage c blob)"
    if "k \<in> set (map (NewString c) [u0 ..< u0 + n])" for k
  proof -
    from that obtain i where "k = NewString c i" "i < u0 + n" by auto
    with reliable_inj[OF rel, of i "u0 + n"] have "k \<noteq> page" by (auto simp add: page_def)
    from g2[OF this] show ?thesis by simp
  qed
  have "page_contents c fs' a =
        map (\<lambda>k. case Get c st k of Inl e \<Rightarrow> Inl e | Inr blob \<Rightarrow> DecryptPage c blob)
          (map (NewString c) [u0 ..< u0 + n]) @ [Inr b]"
    using pages' g1 dec by (simp add: page_contents_def fs'_def upd_info_def page_def)
  also have "map (\<lambda>k. case Get c st k of Inl e \<Rightarrow> Inl e | Inr blob \<Rightarrow> DecryptPage c blob)
          (map (NewString c) [u0 ..< u0 + n]) = page_contents c fs a"
    unfolding page_contents_def pg using old by (intro map_cong) auto
  finally have pc': "page_contents c fs' a = map (\<lambda>i. Inr (take P (drop (i * P) D))) [0 ..< Suc n]"
    using pc by (simp add: b_def)
  have "flushed c a P u0 D (Suc n) fs' f'"
    unfolding flushed_def using pages' pc' o2 ps inf fl uu
    by (simp add: f'_def fs'_def upd_info_def st1)
  with it show ?thesis by blast
qed


lemma flush_iter_empty:
  assumes P: "0 < P" and inv: "flushed c a P u0 D n fs f" and fin: "length D \<le> n * P"
  shows "flush_iter c fs f = Break fs f"
proof -
  from inv have ps: "pageSize fs = int P" and bf: "buf f = drop (n * P) D"
    unfolding flushed_def by blast+
  from bf fin have e: "buf f = []" by simp
  then have "f\<lparr>buf := []\<rparr> = f" by simp
  with e P ps show ?thesis
    by (simp add: flush_iter_def buf_Read_def after_page_def)
qed

lemma flush_loop_False:
  assumes rel: "reliable c" and P: "0 < P" and bound: "int (length D) < 2 ^ 63"
  shows "flushed c a P u0 D n fs f \<Longrightarrow> n \<le> length D div P \<Longrightarrow>
         \<exists>fs' f'. flush_loop c False fs f = Some (Ret (None, fs', f')) \<and>
                  flushed c a P u0 D (length D div P) fs' f'"
proof (induction "length D div P - n" arbitrary: n fs f)
  case 0
  then have n: "n = length D div P" by simp
  from 0 have ps: "pageSize fs = int P" and bf: "buf f = drop (n * P) D"
    unfolding flushed_def by blast+
  have "length (buf f) = length D mod P"
    unfolding bf n by (simp add: minus_div_mult_eq_mod)
  then have "length (buf f) < P" using P by simp
  then have "\<not> pageSize fs \<le> buf_Len (buf f)" by (simp add: ps buf_Len_def)
  then have "flush_loop c False fs f = Some (Ret (None, fs, f))"
    by (subst flush_loop.simps) simp
  with 0 n show ?case by blast
next
  case (Suc k)
  then have lt: "n < length D div P" by simp
  then have "Suc n * P \<le> length D div P * P" by (intro mult_le_mono1) simp
  also have "\<dots> \<le> length D" by simp
  finally have full: "P + n * P \<le> length D" by simp
  with P have more: "n * P < length D" by simp
  from Suc.prems have ps: "pageSize fs = int P" and bf: "buf f = drop (n * P) D"
    unfolding flushed_def by blast+
  from full have "P \<le> length (buf f)" by (simp add: bf)
  then have c: "pageSize fs \<le> buf_Len (buf f)" by (simp add: ps buf_Len_def)
  from flush_iter_page[OF rel P Suc.prems(1) more bound]
  obtain fs1 f1 where it: "flush_iter c fs f = Continue fs1 f1" and inv1: "flushed c a P u0 D (Suc n) fs1 f1"
    by blast
  from Suc.hyps(2) have "k = length D div P - Suc n" by simp
  from Suc.hyps(1)[OF this inv1] lt
  obtain fs' f' where "flush_loop c False fs1 f1 = Some (Ret (None, fs', f'))"
    "flushed c a P u0 D (length D div P) fs' f'" by auto
  moreover have "flush_loop c False fs f = flush_loop c False fs1 f1"
    by (subst flush_loop.simps) (simp add: c it)
  ultimately show ?case by auto
qed

lemma flush_loop_True:
  assumes rel: "reliable c" and P: "0 < P" and bound: "int (length D) < 2 ^ 63"
  shows "flushed c a P u0 D n fs f \<Longrightarrow> n \<le> (length D + P - 1) div P \<Longrightarrow>
         \<exists>fs' f'. flush_loop c True fs f = Some (Ret (None, fs', f')) \<and>
                  flushed c a P u0 D ((length D + P - 1) div P) fs' f'"
proof (induction "(length D + P - 1) div P - n" arbitrary: n fs f)
  case 0
  then have n: "n = (length D + P - 1) div P" by simp
  have "length D \<le> n * P"
  proof -
    have "length D + P - 1 < (length D + P - 1) div P * P + P"
      using P by (metis add.commute dividend_less_div_times mult.commute)
    then show ?thesis unfolding n using P by simp
  qed
  from flush_iter_empty[OF P 0(2) this]
  have "flush_loop c True fs f = Some (Ret (None, fs, f))"
    by (subst flush_loop.simps) simp
  with 0 n show ?case by blast
next
  case (Suc k)
  then have lt: "n < (length D + P - 1) div P" by simp
  have more: "n * P < length D"
  proof (rule ccontr)
    assume "\<not> n * P < length D"
    then have "length D + P - 1 < Suc n * P" using P by simp
    then have "(length D + P - 1) div P < Suc n" using P
      by (simp add: less_mult_imp_div_less)
    with lt show False by simp
  qed
  from flush_iter_page[OF rel P Suc.prems(1) more bound]
  obtain fs1 f1 where it: "flush_iter c fs f = Continue fs1 f1" and inv1: "flushed c a P u0 D (Suc n) fs1 f1"
    by blast
  from Suc.hyps(2) have "k = (length D + P - 1) div P - Suc n" by simp
  from Suc.hyps(1)[OF this inv1] lt
  obtain fs' f' where "flush_loop c True fs1 f1 = Some (Ret (None, fs', f'))"
    "flushed c a P u0 D ((length D + P - 1) div P) fs' f'" by auto
  moreover have "flush_loop c True fs f = flush_loop c True fs1 f1"
    by (subst flush_loop.simps) (simp add: it)
  ultimately show ?case by auto
qed


lemma flushed_node_upd:
  "Pages (g (nodes fs a)) = Pages (nodes fs a) \<Longrightarrow>
   flushed c a P u0 D n (upd_info a g fs) f = flushed c a P u0 D n fs f"
  by (simp add: flushed_def page_contents_def upd_info_def)

lemma flush_False:
  assumes rel: "reliable c" and P: "0 < P" and bound: "int (length D) < 2 ^ 63"
    and inv: "flushed c a P u0 D n fs f" and n: "n \<le> length D div P"
  shows "\<exists>fs' f'. flush c False fs f = Some (Ret (None, fs', f')) \<and>
                  flushed c a P u0 D (length D div P) fs' f'"
proof -
  define fs0 where "fs0 = (if 0 < buf_Len (buf f) \<and> (offset f = 0 \<or> MIMEType (nodes fs (info f)) = [])
              then upd_info (info f) (SetMIMEType (DetectContentType c (buf_Bytes (buf f)))) fs
              else fs)"
  from inv have "info f = a" unfolding flushed_def by blast
  with inv have "flushed c a P u0 D n fs0 f"
    by (simp add: fs0_def flushed_node_upd SetMIMEType_def)
  from flush_loop_False[OF rel P bound this n]
  obtain fs' f' where "flush_loop c False fs0 f = Some (Ret (None, fs', f'))"
    "flushed c a P u0 D (length D div P) fs' f'" by blast
  then show ?thesis unfolding flush_def fs0_def[symmetric] by simp
qed

lemma chunk_append:
  assumes "Suc i * P \<le> length D"
  shows "take P (drop (i * P) (D @ p)) = take P (drop (i * P) D)"
proof -
  from assms have "i * P \<le> length D" "P \<le> length D - i * P" by simp_all
  then show ?thesis by simp
qed

lemma Write_flushed:
  assumes rel: "reliable c" and P: "0 < P" and bound: "int (length (D @ p)) < 2 ^ 63"
    and inv: "flushed c a P u0 D (length D div P) fs f"
  shows "\<exists>fs' f'. Write c fs f p = Some (Ret ((int (length p), None), fs', f')) \<and>
                  flushed c a P u0 (D @ p) (length (D @ p) div P) fs' f'"
proof -
  define n where "n = length D div P"
  have nP: "n * P \<le> length D" by (simp add: n_def)
  from inv have fl: "flag f AND WriteOnly \<noteq> 0" and bf: "buf f = drop (n * P) D"
    and off: "offset f = int (min (n * P) (length D))"
    and pc: "page_contents c fs a = map (\<lambda>i. Inr (take P (drop (i * P) D))) [0 ..< n]"
    unfolding flushed_def n_def by blast+
  have "take P (drop (i * P) (D @ p)) = take P (drop (i * P) D)" if "i < n" for i
  proof -
    from that have "Suc i * P \<le> n * P" by (intro mult_le_mono1) simp
    with nP have "Suc i * P \<le> length D" by simp
    then show ?thesis by (rule chunk_append)
  qed
  then have pc': "page_contents c fs a = map (\<lambda>i. Inr (take P (drop (i * P) (D @ p)))) [0 ..< n]"
    unfolding pc by (intro map_cong) auto
  have inv': "flushed c a P u0 (D @ p) n fs (f\<lparr>buf := buf_Write (buf f) p\<rparr>)"
    using inv nP pc' unfolding flushed_def n_def[symmetric]
    by (simp add: buf_Write_def min_def)
  have "n \<le> length (D @ p) div P" unfolding n_def by (intro div_le_mono) simp
  from flush_False[OF rel P bound inv' this]
  obtain fs' f' where "flush c False fs (f\<lparr>buf := buf_Write (buf f) p\<rparr>) = Some (Ret (None, fs', f'))"
    "flushed c a P u0 (D @ p) (length (D @ p) div P) fs' f'" by blast
  then show ?thesis using fl by (simp add: Write_def)
qed

lemma write_all_flushed:
  assumes rel: "reliable c" and P: "0 < P"
  shows "flushed c a P u0 D (length D div P) fs f \<Longrightarrow> int (length (D @ concat ps)) < 2 ^ 63 \<Longrightarrow>
         \<exists>fs' f'. write_all c fs f ps = Some (fs', f') \<and>
                  flushed c a P u0 (D @ concat ps) (length (D @ concat ps) div P) fs' f'"
proof (induction ps arbitrary: D fs f)
  case Nil
  then show ?case by simp
next
  case (Cons p ps)
  from Cons.prems(2) have "int (length (D @ p)) < 2 ^ 63" by simp
  from Write_flushed[OF rel P this Cons.prems(1)]
  obtain fs1 f1 where w: "Write c fs f p = Some (Ret ((int (length p), None), fs1, f1))"
    and inv1: "flushed c a P u0 (D @ p) (length (D @ p) div P) fs1 f1" by blast
  from Cons.prems(2) have "int (length ((D @ p) @ concat ps)) < 2 ^ 63" by simp
  from Cons.IH[OF inv1 this]
  obtain fs' f' where "write_all c fs1 f1 ps = Some (fs', f')"
    "flushed c a P u0 ((D @ p) @ concat ps) (length ((D @ p) @ concat ps) div P) fs' f'" by blast
  with w show ?case by simp
qed

lemma ceil_div_exact:
  assumes P: "0 < P" and r: "L mod P = 0"
  shows "(L + P - 1) div P = (L::nat) div P"
proof -
  from r obtain q where L: "L = P * q" by (auto simp add: mod_eq_0_iff_dvd)
  have "L + P - 1 = (P - 1) + q * P" using P unfolding L by (simp add: mult.commute)
  moreover have "((P - 1) + q * P) div P = q + (P - 1) div P" using P by (subst div_mult_self1) auto
  moreover have "(P - 1) div P = 0" using P by simp
  moreover have "L div P = q" using P unfolding L by simp
  ultimately show ?thesis by presburger
qed

lemma ceil_div_inexact:
  assumes P: "0 < P" and r: "L mod P \<noteq> 0"
  shows "(L + P - 1) div P = Suc ((L::nat) div P)"
proof -
  define q where "q = L div P"
  define m where "m = L mod P"
  have L: "L = m + q * P" by (simp add: q_def m_def)
  have m: "0 < m" "m < P" using r P by (simp_all add: m_def)
  then have "L + P - 1 = (m - 1) + Suc q * P" unfolding L by simp
  moreover have "((m - 1) + Suc q * P) div P = Suc q + (m - 1) div P" using P by (subst div_mult_self1) auto
  moreover have "(m - 1) div P = 0" using m by simp
  ultimately show ?thesis unfolding q_def by presburger
qed

lemma Close_flushed:
  assumes rel: "reliable c" and P: "0 < P" and bound: "int (length D) < 2 ^ 63"
    and inv: "flushed c a P u0 D (length D div P) fs f"
  shows "\<exists>fs' f'. Close c fs f = Some (Ret (None, fs', f')) \<and> pageSize fs' = int P \<and>
           Pages (nodes fs' a) = map (NewString c) [u0 ..< u0 + (length D + P - 1) div P] \<and>
           page_contents c fs' a =
             map (\<lambda>i. Inr (take P (drop (i * P) D))) [0 ..< (length D + P - 1) div P] \<and>
           (length D mod P \<noteq> 0 \<longrightarrow> Size (nodes fs' a) = int (length D))"
proof -
  define n where "n = length D div P"
  define fsb where "fsb = upd_info (info f) (\<lambda>fi. fi\<lparr>busy := False\<rparr>) fs"
  from inv have inf: "info f = a" and fl: "flag f AND WriteOnly \<noteq> 0" and bf: "buf f = drop (n * P) D"
    unfolding flushed_def n_def by blast+
  have invb: "flushed c a P u0 D n fsb f"
    using inv inf unfolding fsb_def n_def by (simp add: flushed_node_upd)
  have lb: "length (buf f) = length D mod P"
    unfolding bf n_def by (simp add: minus_div_mult_eq_mod)
  show ?thesis
  proof (cases "length D mod P = 0")
    case True
    then have "\<not> 0 < buf_Len (buf f)" using lb by (simp add: buf_Len_def)
    then have cl: "Close c fs f = Some (Ret (None, fsb, f\<lparr>offset := 0\<rparr>))"
      by (simp add: Close_def fsb_def)
    from ceil_div_exact[OF P True] have "(length D + P - 1) div P = n" by (simp add: n_def)
    with invb cl True show ?thesis unfolding flushed_def by auto
  next
    case False
    then have ne: "0 < buf_Len (buf f)" using lb by (simp add: buf_Len_def)
    then have cl: "Close c fs f = flush c True fsb f"
      using fl by (simp add: Close_def fsb_def)
    define fs0 where "fs0 = (if 0 < buf_Len (buf f) \<and> (offset f = 0 \<or> MIMEType (nodes fsb (info f)) = [])
              then upd_info (info f) (SetMIMEType (DetectContentType c (buf_Bytes (buf f)))) fsb
              else fsb)"
    define m where "m = (length D + P - 1) div P"
    have inv0: "flushed c a P u0 D n fs0 f"
      using invb inf by (simp add: fs0_def flushed_node_upd SetMIMEType_def)
    have "n \<le> m" unfolding n_def m_def using P by (intro div_le_mono) simp
    from flush_loop_True[OF rel P bound inv0] this
    obtain fs1 f1 where lp: "flush_loop c True fs0 f = Some (Ret (None, fs1, f1))"
      and inv1: "flushed c a P u0 D m fs1 f1" unfolding m_def by blast
    from inv1 have inf1: "info f1 = a" and ps1: "pageSize fs1 = int P"
      and off1: "offset f1 = int (min (m * P) (length D))"
      and pg1: "Pages (nodes fs1 a) = map (NewString c) [u0 ..< u0 + m]"
      and pc1: "page_contents c fs1 a = map (\<lambda>i. Inr (take P (drop (i * P) D))) [0 ..< m]"
      unfolding flushed_def by blast+
    have "m = Suc n" unfolding m_def n_def using ceil_div_inexact[OF P False] .
    then have "length D < m * P" using P by (simp add: n_def) (metis add.commute dividend_less_div_times mult.commute)
    then have off1': "offset f1 = int (length D)" using off1 by simp
    define fs2 where "fs2 = upd_info (info f1) (setSize (offset f1)) fs1"
    obtain st er where pt: "PutTree c (storage fs2) (nodes fs2) = (st, er)" by (cases "PutTree c (storage fs2) (nodes fs2)")
    from rel have "snd (PutTree c (storage fs2) (nodes fs2)) = None"
      and keep: "\<And>k. Get c (fst (PutTree c (storage fs2) (nodes fs2))) (NewString c k) = Get c (storage fs2) (NewString c k)"
      unfolding reliable_def by blast+
    with pt have er: "er = None" and keep': "\<And>k. Get c st (NewString c k) = Get c (storage fs1) (NewString c k)"
      by (simp_all add: fs2_def upd_info_def)
    define fs3 where "fs3 = fs2\<lparr>storage := st\<rparr>"
    have fl3: "flush c True fsb f = Some (Ret (None, fs3, f1))"
      unfolding flush_def fs0_def[symmetric] using lp pt er
      by (simp add: SaveFileTree_def fs2_def[symmetric] fs3_def)
    have pg3: "Pages (nodes fs3 a) = map (NewString c) [u0 ..< u0 + m]"
      using pg1 inf1 by (simp add: fs3_def fs2_def upd_info_def setSize_def)
    have "page_contents c fs3 a = page_contents c fs1 a"
      unfolding page_contents_def pg3 pg1 using keep'
      by (intro map_cong) (auto simp add: fs3_def)
    with pc1 have pc3: "page_contents c fs3 a = map (\<lambda>i. Inr (take P (drop (i * P) D))) [0 ..< m]" by simp
    have sz: "Size (nodes fs3 a) = int (length D)"
      using off1' inf1 by (simp add: fs3_def fs2_def upd_info_def setSize_def)
    have ps3: "pageSize fs3 = int P"
      using ps1 by (simp add: fs3_def fs2_def upd_info_def)
    from cl fl3 ps3 pg3 pc3 sz show ?thesis unfolding m_def by auto
  qed
qed

lemma chunk_lengths:
  assumes P: "0 < P"
  shows "map (\<lambda>i. length (take P (drop (i * P) (B::'a list)))) [0 ..< (length B + P - 1) div P] =
         replicate (length B div P) P @ (if length B mod P = 0 then [] else [length B mod P])"
proof -
  define q where "q = length B div P"
  have full: "length (take P (drop (i * P) B)) = P" if "i < q" for i
  proof -
    from that have "Suc i * P \<le> q * P" by (intro mult_le_mono1) simp
    also have "\<dots> \<le> length B" by (simp add: q_def)
    finally have "P \<le> length B - i * P" by simp
    then show ?thesis by simp
  qed
  have "map (\<lambda>i. length (take P (drop (i * P) B))) [0 ..< q] = map (\<lambda>i. P) [0 ..< q]"
    using full by (intro map_cong) auto
  then have pre: "map (\<lambda>i. length (take P (drop (i * P) B))) [0 ..< q] = replicate q P"
    by (simp add: map_replicate_const)
  show ?thesis
  proof (cases "length B mod P = 0")
    case True
    with ceil_div_exact[OF P True] pre show ?thesis by (simp add: q_def)
  next
    case False
    have "length B - q * P = length B mod P" by (simp add: q_def minus_div_mult_eq_mod)
    moreover have "length B mod P < P" using P by simp
    ultimately have "length (take P (drop (q * P) B)) = length B mod P" by simp
    with ceil_div_inexact[OF P False] pre False show ?thesis by (simp add: q_def)
  qed
qed

text \<open>
  C4: on a new file (no pages yet) of a file system with page size \<open>P > 0\<close> and
  collaborators that do their job, writing the chunks through a fresh write handle
  succeeds; between \<^verbatim>\<open>Write\<close> calls the staging buffer holds fewer than \<open>P\<close> bytes and
  the page list has one entry for each full \<open>P\<close> bytes written so far; after \<^verbatim>\<open>Close\<close>
  the page list has \<open>ceil(L / P)\<close> entries for the \<open>L\<close> bytes written, page \<open>i\<close>
  decrypts to the bytes \<open>[i * P, (i + 1) * P)\<close> of what was written, so every page has
  \<open>P\<close> bytes but the last, which has \<open>L mod P\<close> when that is not 0. The chunk list is
  arbitrary, so the statement about the state before \<^verbatim>\<open>Close\<close> holds after every
  \<^verbatim>\<open>Write\<close>.
\<close>

theorem C4_page_chunking:
  assumes rel: "reliable c" and ps: "pageSize fs = int P" and P: "0 < P"
    and new: "Pages (nodes fs a) = []" and wo: "flg AND WriteOnly \<noteq> 0"
    and bound: "int (length (concat chunks)) < 2 ^ 63"
  shows "\<exists>fs0 f0 fs1 f1 fs2 f2.
           newFile fs a flg = Ret (fs0, f0) \<and>
           write_all c fs0 f0 chunks = Some (fs1, f1) \<and>
           buf_Len (buf f1) < pageSize fs \<and>
           length (Pages (nodes fs1 a)) = length (concat chunks) div P \<and>
           Close c fs1 f1 = Some (Ret (None, fs2, f2)) \<and>
           length (Pages (nodes fs2 a)) = (length (concat chunks) + P - 1) div P \<and>
           page_contents c fs2 a =
             map (\<lambda>i. Inr (take P (drop (i * P) (concat chunks))))
               [0 ..< (length (concat chunks) + P - 1) div P] \<and>
           page_lengths c fs2 a =
             map Inr (replicate (length (concat chunks) div P) P @
                      (if length (concat chunks) mod P = 0 then []
                       else [length (concat chunks) mod P]))"
proof -
  define B where "B = concat chunks"
  define fs0 where "fs0 = upd_info a (\<lambda>fi. fi\<lparr>busy := True\<rparr>) fs"
  define f0 where "f0 = \<lparr>buf = [], offset = 0, info = a, flag = flg\<rparr>"
  have nf: "newFile fs a flg = Ret (fs0, f0)"
    using wo by (simp add: newFile_def ReadOnly_def fs0_def f0_def)
  have inv0: "flushed c a P (uuids fs) [] (length ([]::byte list) div P) fs0 f0"
    using ps new wo by (simp add: flushed_def page_contents_def fs0_def f0_def upd_info_def)
  from bound have "int (length ([] @ concat chunks)) < 2 ^ 63" by simp
  from write_all_flushed [OF rel P inv0 this]
  obtain fs1 f1 where wa: "write_all c fs0 f0 chunks = Some (fs1, f1)"
    and inv1: "flushed c a P (uuids fs) B (length B div P) fs1 f1"
    by (auto simp add: B_def)
  from inv1 have ps1: "pageSize fs1 = int P" and bf: "buf f1 = drop (length B div P * P) B"
    and pg1: "Pages (nodes fs1 a) = map (NewString c) [uuids fs ..< uuids fs + length B div P]"
    unfolding flushed_def by blast+
  have "length (buf f1) = length B mod P" unfolding bf by (simp add: minus_div_mult_eq_mod)
  then have small: "buf_Len (buf f1) < pageSize fs" using P ps by (simp add: buf_Len_def)
  from pg1 have n1: "length (Pages (nodes fs1 a)) = length B div P" by simp
  from bound have "int (length B) < 2 ^ 63" by (simp add: B_def)
  from Close_flushed [OF rel P this inv1]
  obtain fs2 f2 where cl: "Close c fs1 f1 = Some (Ret (None, fs2, f2))"
    and pg2: "Pages (nodes fs2 a) = map (NewString c) [uuids fs ..< uuids fs + (length B + P - 1) div P]"
    and pc2: "page_contents c fs2 a =
                map (\<lambda>i. Inr (take P (drop (i * P) B))) [0 ..< (length B + P - 1) div P]"
    by blast
  from pg2 have n2: "length (Pages (nodes fs2 a)) = (length B + P - 1) div P" by simp
  have "page_lengths c fs2 a =
          map Inr (map (\<lambda>i. length (take P (drop (i * P) B))) [0 ..< (length B + P - 1) div P])"
    unfolding page_lengths_def pc2 by (simp add: comp_def)
  also have "\<dots> = map Inr (replicate (length B div P) P @
                      (if length B mod P = 0 then [] else [length B mod P]))"
    by (simp only: chunk_lengths [OF P])
  finally have pl: "page_lengths c fs2 a =
      map Inr (replicate (length B div P) P @ (if length B mod P = 0 then [] else [length B mod P]))" .
  from nf wa small n1 cl n2 pc2 pl show ?thesis unfolding B_def by blast
qed

theorem C4_page_chunking_witness:
  "reliable memCollab \<and> pageSize (memFS 4) = int 4 \<and> (0::nat) < 4 \<and>
   Pages (nodes (memFS 4) 0) = [] \<and> WriteOnly AND WriteOnly \<noteq> 0 \<and>
   int (length (concat [[104, 101, 108, 108, 111, 32], [119, 111, 114, 108, 100::byte]])) < 2 ^ 63 \<and>
   (\<exists>fs0 f0 fs1 f1 fs2 f2.
      newFile (memFS 4) 0 WriteOnly = Ret (fs0, f0) \<and>
      write_all memCollab fs0 f0 [[104, 101, 108, 108, 111, 32], [119, 111, 114, 108, 100]] = Some (fs1, f1) \<and>
      buf_Len (buf f1) < 4 \<and>
      length (Pages (nodes fs1 0)) = 2 \<and>
      Close memCollab fs1 f1 = Some (Ret (None, fs2, f2)) \<and>
      length (Pages (nodes fs2 0)) = 3 \<and>
      page_contents memCollab fs2 0 =
        [Inr [104, 101, 108, 108], Inr [111, 32, 119, 111], Inr [114, 108, 100]] \<and>
      page_lengths memCollab fs2 0 = [Inr 4, Inr 4, Inr 3])"
proof -
  let ?X = "[[104, 101, 108, 108, 111, 32], [119, 111, 114, 108, 100::byte]]"
  have h: "pageSize (memFS 4) = int 4" "(0::nat) < 4" "Pages (nodes (memFS 4) 0) = []"
    "WriteOnly AND WriteOnly \<noteq> 0" "int (length (concat ?X)) < 2 ^ 63"
    by (simp_all add: memFS_def newNode_def WriteOnly_def)
  have upt3: "[0 ..< 3] = [0, 1, 2::nat]" by code_simp
  have e: "pageSize (memFS 4) = 4" "length (concat ?X) div 4 = 2"
    "(length (concat ?X) + 4 - 1) div 4 = 3"
    "map (\<lambda>i. Inr (take 4 (drop (i * 4) (concat ?X)))) [0 ..< 3] =
       [Inr [104, 101, 108, 108], Inr [111, 32, 119, 111], Inr [114, 108, 100]]"
    "map Inr (replicate 2 4 @ (if length (concat ?X) mod 4 = 0 then []
                               else [length (concat ?X) mod 4])) = [Inr 4, Inr 4, Inr 3]"
    by (simp_all add: memFS_def upt3 numeral_2_eq_2)
  have "\<exists>fs0 f0 fs1 f1 fs2 f2.
      newFile (memFS 4) 0 WriteOnly = Ret (fs0, f0) \<and>
      write_all memCollab fs0 f0 ?X = Some (fs1, f1) \<and>
      buf_Len (buf f1) < 4 \<and>
      length (Pages (nodes fs1 0)) = 2 \<and>
      Close memCollab fs1 f1 = Some (Ret (None, fs2, f2)) \<and>
      length (Pages (nodes fs2 0)) = 3 \<and>
      page_contents memCollab fs2 0 =
        [Inr [104, 101, 108, 108], Inr [111, 32, 119, 111], Inr [114, 108, 100]] \<and>
      page_lengths memCollab fs2 0 = [Inr 4, Inr 4, Inr 3]"
    using C4_page_chunking [OF reliable_memCollab h] unfolding e .
  with reliable_memCollab h show ?thesis by (intro conjI)
qed

section \<open>Sizes on the write path\<close>

text \<open>
  Before \<^verbatim>\<open>Close\<close>, the write path sets no size: \<^verbatim>\<open>setSize\<close> is called by
  \<^verbatim>\<open>flush(true)\<close> only.
\<close>

lemma size_kept_refl: "size_kept fs fs"
  by (simp add: size_kept_def)

lemma size_kept_trans: "size_kept fs fs1 \<Longrightarrow> size_kept fs1 fs2 \<Longrightarrow> size_kept fs fs2"
  unfolding size_kept_def by metis

lemma flush_iter_size_kept:
  assumes "flush_iter c fs f = Continue fs1 f1 \<or> flush_iter c fs f = Break fs1 f1 \<or> flush_iter c fs f = Return e fs1 f1"
  shows "size_kept fs fs1"
  using assms
  unfolding flush_iter_def Let_def
  apply (simp split: if_splits prod.splits sum.splits option.splits)
  apply (auto dest!: after_page_cases simp add: size_kept_def upd_info_def truncate_def addPage_def split: if_splits)
  done

lemma flush_loop_size_kept_aux:
  assumes "flush_loop c all fs f = Some y"
  shows "\<forall>e fs1 f1. y = Ret (e, fs1, f1) \<longrightarrow> size_kept fs fs1"
proof (rule flush_loop.raw_induct[where P = "\<lambda>c all fs f y. \<forall>e fs1 f1. y = Ret (e, fs1, f1) \<longrightarrow> size_kept fs fs1", OF _ assms])
  fix floop :: "'a Collab \<Rightarrow> bool \<Rightarrow> 'a FileSystem \<Rightarrow> File \<Rightarrow> ((error option \<times> 'a FileSystem \<times> File) go) option"
  fix c all fs f y
  assume IH: "\<And>c all fs f y. floop c all fs f = Some y \<Longrightarrow> \<forall>e fs1 f1. y = Ret (e, fs1, f1) \<longrightarrow> size_kept fs fs1"
  assume body: "(if all \<or> pageSize fs \<le> buf_Len (buf f) then
        (case flush_iter c fs f of
           Continue fs1 f1 \<Rightarrow> floop c all fs1 f1
         | Break fs1 f1 \<Rightarrow> Some (Ret (None, fs1, f1))
         | Return e fs1 f1 \<Rightarrow> Some (Ret (Some e, fs1, f1))
         | Panics m \<Rightarrow> Some (Panic m))
      else Some (Ret (None, fs, f))) = Some y"
  show "\<forall>e fs1 f1. y = Ret (e, fs1, f1) \<longrightarrow> size_kept fs fs1"
  proof (cases "all \<or> pageSize fs \<le> buf_Len (buf f)")
    case False
    with body show ?thesis by (auto simp add: size_kept_refl)
  next
    case True
    show ?thesis
    proof (cases "flush_iter c fs f")
      case (Continue fs' f')
      with True body have "floop c all fs' f' = Some y" by simp
      from IH[OF this] flush_iter_size_kept[of c fs f fs' f'] Continue
      show ?thesis by (blast intro: size_kept_trans)
    next
      case (Break fs' f')
      with True body flush_iter_size_kept[of c fs f fs' f'] show ?thesis by auto
    next
      case (Return e' fs' f')
      with True body flush_iter_size_kept[of c fs f fs' f' e'] show ?thesis by auto
    next
      case (Panics m)
      with True body show ?thesis by auto
    qed
  qed
qed

lemma Write_size_kept:
  assumes "Write c fs f p = Some (Ret (r, fs1, f1))"
  shows "size_kept fs fs1"
proof (cases "flag f AND WriteOnly = 0")
  case True
  with assms show ?thesis by (simp add: Write_def size_kept_refl)
next
  case False
  define g where "g = f\<lparr>buf := buf_Write (buf f) p\<rparr>"
  define fs0 where "fs0 = (if 0 < buf_Len (buf g) \<and> (offset g = 0 \<or> MIMEType (nodes fs (info g)) = [])
              then upd_info (info g) (SetMIMEType (DetectContentType c (buf_Bytes (buf g)))) fs
              else fs)"
  have k0: "size_kept fs fs0" by (simp add: fs0_def size_kept_def upd_info_def SetMIMEType_def)
  from assms False obtain e where fl: "flush c False fs g = Some (Ret (e, fs1, f1))"
    unfolding Write_def g_def by (auto split: option.splits go.splits prod.splits simp add: Let_def)
  then obtain y where y: "flush_loop c False fs0 g = Some y"
    unfolding flush_def fs0_def by (auto split: option.splits)
  with fl have "y = Ret (e, fs1, f1)"
    unfolding flush_def fs0_def by (auto split: go.splits option.splits prod.splits)
  with flush_loop_size_kept_aux[OF y] have "size_kept fs0 fs1" by blast
  with k0 show ?thesis by (rule size_kept_trans)
qed

lemma write_all_size_kept:
  "write_all c fs f ps = Some (fs1, f1) \<Longrightarrow> size_kept fs fs1"
proof (induction ps arbitrary: fs f)
  case Nil
  then show ?case by (simp add: size_kept_refl)
next
  case (Cons p ps)
  from Cons.prems obtain n fs' f' where w: "Write c fs f p = Some (Ret ((n, None), fs', f'))"
    and r: "write_all c fs' f' ps = Some (fs1, f1)"
    by (auto split: option.splits go.splits prod.splits if_splits)
  from Write_size_kept[OF w] Cons.IH[OF r] show ?case by (rule size_kept_trans)
qed

section \<open>The read path\<close>

text \<open>
  On a file that holds the bytes \<open>B\<close> in pages, a handle that reads from offset 0
  keeps its staging buffer aligned with the pages, each \<^verbatim>\<open>File.read\<close> delivers at
  least one byte, and \<^verbatim>\<open>Read\<close> returns the next bytes of \<open>B\<close>, with \<^verbatim>\<open>io.EOF\<close> exactly
  when fewer bytes are left than were asked for.
\<close>

lemma sdiv_nat: "0 < P \<Longrightarrow> int k sdiv int P = int (k div P)"
  by (cases "k = 0") (simp_all add: signed_divide_int_def zdiv_int)

lemma smod_nat: "0 < P \<Longrightarrow> int k smod int P = int (k mod P)"
  by (cases "k = 0") (simp_all add: signed_modulo_int_def zmod_int)

lemma stored_page:
  assumes st: "stored_file c fs a P B" and i: "i < (length B + P - 1) div P"
  shows "i < length (Pages (nodes fs a)) \<and>
         (\<exists>blob. Get c (storage fs) (Pages (nodes fs a) ! i) = Inr blob \<and>
                 DecryptPage c blob = Inr (take P (drop (i * P) B)))"
proof -
  let ?g = "\<lambda>k. case Get c (storage fs) k of Inl e \<Rightarrow> Inl e | Inr blob \<Rightarrow> DecryptPage c blob"
  from st have pc: "map ?g (Pages (nodes fs a)) =
      map (\<lambda>i. Inr (take P (drop (i * P) B))) [0 ..< (length B + P - 1) div P]"
    unfolding stored_file_def page_contents_def by blast
  from arg_cong [OF pc, of length] have len: "length (Pages (nodes fs a)) = (length B + P - 1) div P"
    by simp
  with i have il: "i < length (Pages (nodes fs a))" by simp
  from arg_cong [OF pc, of "\<lambda>xs. xs ! i"] il i
  have "?g (Pages (nodes fs a) ! i) = Inr (take P (drop (i * P) B))" by simp
  then have "\<exists>blob. Get c (storage fs) (Pages (nodes fs a) ! i) = Inr blob \<and>
                 DecryptPage c blob = Inr (take P (drop (i * P) B))"
    by (cases "Get c (storage fs) (Pages (nodes fs a) ! i)") auto
  with il show ?thesis by blast
qed

text \<open>
  A \<^verbatim>\<open>File.read\<close> with an empty staging buffer hands out the page of the offset
  from the first byte of that page, whatever the offset within the page.
\<close>

lemma read_load:
  assumes st: "stored_file c fs a P B" and P: "0 < P" and bound: "int (length B) < 2 ^ 63"
    and pos: "pos < length B" and inf: "info f = a" and bf: "buf f = []" and off: "offset f = int pos"
    and k: "0 < k"
  shows "read c fs f k =
           Ret ((take k (take P (drop (pos div P * P) B)), None),
                f\<lparr>buf := drop k (take P (drop (pos div P * P) B)),
                  offset := int64 (int pos + int (length (take k (take P (drop (pos div P * P) B)))))\<rparr>)"
proof -
  define i where "i = pos div P"
  define page where "page = take P (drop (i * P) B)"
  from st have ps: "pageSize fs = int P" and sz: "Size (nodes fs a) = int (length B)"
    unfolding stored_file_def by blast+
  have iP: "i * P \<le> pos" by (simp add: i_def)
  have "i * P < (length B + P - 1) div P * P + P"
  proof -
    have "length B + P - 1 < (length B + P - 1) div P * P + P"
      using P by (metis add.commute dividend_less_div_times mult.commute)
    with iP pos show ?thesis by linarith
  qed
  then have "i * P < Suc ((length B + P - 1) div P) * P" by simp
  then have "i < Suc ((length B + P - 1) div P)" using P by (simp only: mult_less_cancel2) 
  moreover have "i \<noteq> (length B + P - 1) div P"
  proof
    assume e: "i = (length B + P - 1) div P"
    have "length B + P - 1 < i * P + P" unfolding e
      using P by (metis add.commute dividend_less_div_times mult.commute)
    with iP pos P show False by linarith
  qed
  ultimately have im: "i < (length B + P - 1) div P" by simp
  from stored_page [OF st im] obtain blob where il: "i < length (Pages (nodes fs a))"
    and g: "Get c (storage fs) (Pages (nodes fs a) ! i) = Inr blob"
    and d: "DecryptPage c blob = Inr page" unfolding page_def by blast
  have ne: "page \<noteq> []" using iP pos P by (simp add: page_def)
  have "int i < 2 ^ 63"
  proof -
    have "i \<le> pos" using iP P by (metis i_def div_le_dividend)
    with pos bound show ?thesis by linarith
  qed
  then have idx: "int64 (int pos sdiv int P) = int i"
    by (simp add: sdiv_nat [OF P] i_def [symmetric] int64_nat)
  have lp: "loadPage c fs f = Ret (None, f\<lparr>buf := page\<rparr>)"
    unfolding loadPage_def
    using P il g d
    by (simp add: idx Let_def ps inf off smod_nat [OF P] buf_Grow_def buf_Write_def bf)
  have "\<not> Size (nodes fs (info f)) \<le> offset f" using pos by (simp add: inf sz off)
  then show ?thesis
    unfolding read_def using lp ne
    by (simp add: bf buf_Len_def buf_Read_def off page_def [symmetric] i_def [symmetric])
qed

lemma read_buffered:
  assumes "offset f < Size (nodes fs (info f))" and "buf f \<noteq> []"
  shows "read c fs f k =
           Ret ((take k (buf f), None),
                f\<lparr>buf := drop k (buf f), offset := int64 (offset f + int (length (take k (buf f))))\<rparr>)"
  using assms by (simp add: read_def buf_Len_def buf_Read_def)


lemma ceil_between:
  assumes P: "0 < P" and lo: "q * P < x" and hi: "x \<le> Suc q * P"
  shows "(x + P - 1) div P = Suc (q::nat)"
proof (rule div_nat_eqI)
  show "P * Suc q \<le> x + P - 1" using lo P by (simp add: mult.commute)
  show "x + P - 1 < P * Suc (Suc q)" using hi P by (simp add: mult.commute)
qed

lemma ceil_mult_ge: "0 < P \<Longrightarrow> x \<le> (x + P - 1) div P * (P::nat)"
proof -
  assume P: "0 < P"
  have "x + P - 1 < (x + P - 1) div P * P + P"
    using P by (metis add.commute dividend_less_div_times mult.commute)
  then show ?thesis by simp
qed

lemma read_step:
  assumes st: "stored_file c fs a P B" and P: "0 < P" and bound: "int (length B) < 2 ^ 63"
    and rd: "reading a P B pos f" and pos: "pos < length B" and k: "0 < k"
  shows "\<exists>bs f'. read c fs f k = Ret ((bs, None), f') \<and> bs \<noteq> [] \<and> length bs \<le> k \<and>
           pos + length bs \<le> length B \<and> take pos B @ bs = take (pos + length bs) B \<and>
           reading a P B (pos + length bs) f'"
proof -
  define q where "q = pos div P"
  define nb where "nb = Suc q * P"
  define Y where "Y = take nb B"
  define X where "X = drop pos Y"
  from rd have inf: "info f = a" and fl: "flag f AND WriteOnly = 0" and off: "offset f = int pos"
    and bf: "buf f = drop pos (take ((pos + P - 1) div P * P) B)"
    unfolding reading_def by blast+
  from st have sz: "Size (nodes fs a) = int (length B)" unfolding stored_file_def by blast
  have qlo: "q * P \<le> pos" by (simp add: q_def)
  have nb1: "pos < nb" unfolding nb_def q_def
    using P by (metis add.commute dividend_less_div_times mult.commute mult_Suc)
  have lY: "length Y = min nb (length B)" by (simp add: Y_def min.commute)
  have lX: "length X = min nb (length B) - pos" by (simp add: X_def lY)
  have Xne: "X \<noteq> []" using nb1 pos lX by auto
  have rdX: "read c fs f k =
      Ret ((take k X, None), f\<lparr>buf := drop k X, offset := int64 (int pos + int (length (take k X)))\<rparr>)"
  proof (cases "buf f = []")
    case True
    with bf have "min ((pos + P - 1) div P * P) (length B) \<le> pos" by simp
    with pos have "(pos + P - 1) div P * P \<le> pos" by simp
    with ceil_mult_ge [OF P, of pos] have e: "(pos + P - 1) div P * P = pos" by simp
    then have "pos mod P = 0" by (metis mod_mult_self2_is_0)
    then have qP: "q * P = pos" unfolding q_def by (simp add: mod_eq_0_iff_dvd)
    then have "nb = P + pos" by (simp add: nb_def)
    then have "take P (drop (pos div P * P) B) = X"
      unfolding X_def Y_def using qP by (simp add: q_def take_drop)
    with read_load [OF st P bound pos inf True off k] show ?thesis by simp
  next
    case False
    with bf have "pos < (pos + P - 1) div P * P" by (cases "pos < (pos + P - 1) div P * P") simp_all
    have "pos mod P \<noteq> 0"
    proof
      assume "pos mod P = 0"
      then have "(pos + P - 1) div P = pos div P" using P
        by (metis ceil_div_exact)
      with \<open>pos < (pos + P - 1) div P * P\<close> have "pos < pos div P * P" by simp
      moreover have "pos div P * P \<le> pos" by simp
      ultimately show False by linarith
    qed
    then have "(pos + P - 1) div P = Suc q" unfolding q_def using P by (metis ceil_div_inexact)
    with bf have "buf f = X" by (simp add: X_def Y_def nb_def)
    moreover have "offset f < Size (nodes fs (info f))" using pos by (simp add: off inf sz)
    ultimately show ?thesis using read_buffered [where f = f and fs = fs and k = k and c = c] Xne
      by (simp add: off)
  qed
  define bs where "bs = take k X"
  define f' where "f' = f\<lparr>buf := drop k X, offset := int64 (int pos + int (length bs))\<rparr>"
  have lbs: "length bs = min k (min nb (length B) - pos)" by (simp add: bs_def lX)
  have bne: "bs \<noteq> []" using Xne k by (simp add: bs_def)
  have ble: "length bs \<le> k" by (simp add: bs_def)
  have pl: "pos + length bs \<le> length B" using lbs pos by (simp add: min_def split: if_splits)
  have pn: "pos + length bs \<le> nb" using lbs nb1 by (simp add: min_def split: if_splits)
  have "int (pos + length bs) < 2 ^ 63" using pl bound by linarith
  from int64_nat [OF this] have "int64 (int pos + int (length bs)) = int pos + int (length bs)"
    by simp
  then have o': "offset f' = int (pos + length bs)" by (simp add: f'_def)
  have tk: "take pos B @ bs = take (pos + length bs) B"
  proof -
    have "take pos B = take pos Y" using nb1 by (simp add: Y_def min_def)
    then have "take pos B @ bs = take (pos + k) Y"
      by (simp add: bs_def X_def take_add)
    also have "\<dots> = take (pos + length bs) Y"
      using lbs lY pos nb1 by (simp add: min_def split: if_splits)
    also have "\<dots> = take (pos + length bs) B" using pn by (simp add: Y_def min_def)
    finally show ?thesis .
  qed
  have cl: "(pos + length bs + P - 1) div P = Suc q"
  proof (rule ceil_between [OF P])
    show "q * P < pos + length bs" using qlo bne by (cases bs) simp_all
    show "pos + length bs \<le> Suc q * P" using pn by (simp add: nb_def)
  qed
  have "drop k X = drop (pos + length bs) Y"
    using lbs lY pos nb1 by (simp add: X_def min_def add.commute split: if_splits)
  then have "buf f' = drop (pos + length bs) (take (Suc q * P) B)"
    by (simp add: f'_def Y_def nb_def)
  then have "buf f' = drop (pos + length bs) (take ((pos + length bs + P - 1) div P * P) B)"
    by (simp only: cl)
  with inf fl o' have "reading a P B (pos + length bs) f'"
    unfolding reading_def by (simp add: f'_def)
  with rdX bne ble pl tk show ?thesis unfolding bs_def [symmetric] f'_def [symmetric] by blast
qed


lemma Read_loop_reads:
  assumes st: "stored_file c fs a P B" and P: "0 < P" and bound: "int (length B) < 2 ^ 63"
  shows "reading a P B pos f \<Longrightarrow> pos \<le> length B \<Longrightarrow> pos \<le> n \<Longrightarrow>
         \<exists>f'. Read_loop c fs n (take pos B) f =
                Some (Ret ((take n B, if length B < n then Some EOF else None), f'))"
proof (induction "min n (length B) - pos" arbitrary: pos f rule: less_induct)
  case less
  from less.prems(1) have inf: "info f = a" and off: "offset f = int pos"
    unfolding reading_def by blast+
  from st have sz: "Size (nodes fs a) = int (length B)" unfolding stored_file_def by blast
  have lg: "length (take pos B) = pos" using less.prems(2) by simp
  consider "pos = n" | "pos < n" "pos = length B" | "pos < n" "pos < length B"
    using less.prems(2,3) by linarith
  then show ?case
  proof cases
    case 1
    then have "Read_loop c fs n (take pos B) f = Some (Ret ((take pos B, None), f))"
      using less.prems(2) by (subst Read_loop.simps) simp
    with 1 less.prems(2) show ?thesis by auto
  next
    case 2
    then have "read c fs f (n - pos) = Ret (([], Some EOF), f)"
      by (simp add: read_def inf sz off)
    then have "Read_loop c fs n (take pos B) f = Some (Ret ((take pos B, Some EOF), f))"
      using 2 by (subst Read_loop.simps) simp
    with 2 show ?thesis by auto
  next
    case 3
    then have k: "0 < n - pos" by simp
    from read_step [OF st P bound less.prems(1) 3(2) k]
    obtain bs f1 where r: "read c fs f (n - pos) = Ret ((bs, None), f1)" and bne: "bs \<noteq> []"
      and ble: "length bs \<le> n - pos" and pl: "pos + length bs \<le> length B"
      and tk: "take pos B @ bs = take (pos + length bs) B"
      and rd1: "reading a P B (pos + length bs) f1" by blast
    from bne have "0 < length bs" by simp
    with 3 have m: "min n (length B) - (pos + length bs) < min n (length B) - pos" by linarith
    from ble 3 have pn: "pos + length bs \<le> n" by simp
    from less.hyps [OF m rd1 pl pn]
    obtain f' where "Read_loop c fs n (take (pos + length bs) B) f1 =
        Some (Ret ((take n B, if length B < n then Some EOF else None), f'))" by blast
    moreover have "Read_loop c fs n (take pos B) f = Read_loop c fs n (take pos B @ bs) f1"
      using 3 r by (subst Read_loop.simps) (simp add: lg)
    ultimately show ?thesis by (simp add: tk)
  qed
qed

lemma Read_stored:
  assumes st: "stored_file c fs a P B" and P: "0 < P" and bound: "int (length B) < 2 ^ 63"
    and fl: "flg AND WriteOnly = 0"
  shows "\<exists>f'. Read c fs \<lparr>buf = [], offset = 0, info = a, flag = flg\<rparr> n =
               Some (Ret ((take n B, if length B < n then Some EOF else None), f'))"
proof -
  let ?f = "\<lparr>buf = [], offset = 0, info = a, flag = flg\<rparr>"
  from st have nd: "\<not> IsDir (nodes fs a)" unfolding stored_file_def by blast
  have "(0 + P - 1) div P = 0" using P by simp
  then have "reading a P B 0 ?f" using fl by (simp add: reading_def)
  from Read_loop_reads [OF st P bound this, of n]
  obtain f' where "Read_loop c fs n [] ?f =
      Some (Ret ((take n B, if length B < n then Some EOF else None), f'))" by auto
  then show ?thesis using fl nd by (simp add: Read_def)
qed

section \<open>The round trip for every page size\<close>

text \<open>
  Writing to a new file, closing, reopening and reading gives back what was written
  exactly when the length is not a positive multiple of the page size. When it is,
  \<^verbatim>\<open>Close\<close> finds the staging buffer empty and sets no size: the file reads as empty.
\<close>

lemma write_all_frame:
  "write_all c fs f ps = Some (fs1, f1) \<Longrightarrow> frame fs f fs1 f1"
proof (induction ps arbitrary: fs f)
  case Nil
  then show ?case by (simp add: frame_refl)
next
  case (Cons p ps)
  from Cons.prems obtain n fs' f' where w: "Write c fs f p = Some (Ret ((n, None), fs', f'))"
    and r: "write_all c fs' f' ps = Some (fs1, f1)"
    by (auto split: option.splits go.splits prod.splits if_splits)
  from Write_frame [OF w] Cons.IH [OF r] show ?case by (rule frame_trans)
qed

lemma Close_frame:
  assumes "Close c fs f = Some (Ret (e, fs1, f1))"
  shows "IsDir (nodes fs1 a) = IsDir (nodes fs a)"
proof (cases "flag f AND WriteOnly \<noteq> 0 \<and> 0 < buf_Len (buf f)")
  case True
  with assms have "flush c True (upd_info (info f) (\<lambda>fi. fi\<lparr>busy := False\<rparr>) fs) f = Some (Ret (e, fs1, f1))"
    by (simp add: Close_def)
  from flush_frame [OF this] show ?thesis by (simp add: frame_def upd_info_def)
next
  case False
  with assms show ?thesis by (auto simp add: Close_def upd_info_def split: if_splits)
qed

text \<open>The state after writing to a new file and closing.\<close>

lemma write_then_close_new:
  assumes rel: "reliable c" and ps: "pageSize fs = int P" and P: "0 < P"
    and new: "Pages (nodes fs a) = []" "Size (nodes fs a) = 0" "\<not> IsDir (nodes fs a)"
    and bound: "int (length (concat chunks)) < 2 ^ 63"
  shows "\<exists>fs2. write_then_close c fs a chunks = Some (None, fs2) \<and>
           pageSize fs2 = int P \<and> \<not> IsDir (nodes fs2 a) \<and>
           Size (nodes fs2 a) =
             (if length (concat chunks) mod P = 0 then 0 else int (length (concat chunks))) \<and>
           page_contents c fs2 a =
             map (\<lambda>i. Inr (take P (drop (i * P) (concat chunks))))
               [0 ..< (length (concat chunks) + P - 1) div P]"
proof -
  define B where "B = concat chunks"
  define fs0 where "fs0 = upd_info a (\<lambda>fi. fi\<lparr>busy := True\<rparr>) fs"
  define f0 where "f0 = \<lparr>buf = [], offset = 0, info = a, flag = WriteOnly\<rparr>"
  have nf: "newFile fs a WriteOnly = Ret (fs0, f0)"
    by (simp add: newFile_def ReadOnly_def WriteOnly_def fs0_def f0_def)
  have new0: "Size (nodes fs0 a) = 0" "\<not> IsDir (nodes fs0 a)"
    using new by (simp_all add: fs0_def upd_info_def)
  have inv0: "flushed c a P (uuids fs) [] (length ([]::byte list) div P) fs0 f0"
    using ps new by (simp add: flushed_def page_contents_def fs0_def f0_def upd_info_def WriteOnly_def)
  from bound have "int (length ([] @ concat chunks)) < 2 ^ 63" by simp
  from write_all_flushed [OF rel P inv0 this]
  obtain fs1 f1 where wa: "write_all c fs0 f0 chunks = Some (fs1, f1)"
    and inv1: "flushed c a P (uuids fs) B (length B div P) fs1 f1"
    by (auto simp add: B_def)
  from write_all_frame [OF wa] new0 have d1: "\<not> IsDir (nodes fs1 a)" by (simp add: frame_def)
  from write_all_size_kept [OF wa] new0 have s1: "Size (nodes fs1 a) = 0"
    unfolding size_kept_def by metis
  from inv1 have ps1: "pageSize fs1 = int P" and inf1: "info f1 = a"
    and bf: "buf f1 = drop (length B div P * P) B"
    unfolding flushed_def by blast+
  from bound have bB: "int (length B) < 2 ^ 63" by (simp add: B_def)
  from Close_flushed [OF rel P bB inv1]
  obtain fs2 f2 where cl: "Close c fs1 f1 = Some (Ret (None, fs2, f2))"
    and p2: "pageSize fs2 = int P"
    and pc2: "page_contents c fs2 a =
                map (\<lambda>i. Inr (take P (drop (i * P) B))) [0 ..< (length B + P - 1) div P]"
    and sz2: "length B mod P \<noteq> 0 \<longrightarrow> Size (nodes fs2 a) = int (length B)"
    by blast
  from Close_frame [OF cl] d1 have d2: "\<not> IsDir (nodes fs2 a)" by simp
  have s2: "Size (nodes fs2 a) = 0" if "length B mod P = 0"
  proof -
    have "length (buf f1) = length B mod P" unfolding bf by (simp add: minus_div_mult_eq_mod)
    with that have "buf f1 = []" by simp
    with cl have "fs2 = upd_info (info f1) (\<lambda>fi. fi\<lparr>busy := False\<rparr>) fs1"
      by (simp add: Close_def buf_Len_def)
    with s1 inf1 show ?thesis by (simp add: upd_info_def)
  qed
  from nf wa cl have "write_then_close c fs a chunks = Some (None, fs2)"
    by (simp add: write_then_close_def)
  with p2 d2 s2 sz2 pc2 show ?thesis unfolding B_def by auto
qed


lemma Read_empty:
  assumes "\<not> IsDir (nodes fs a)" "Size (nodes fs a) = 0" "flg AND WriteOnly = 0"
  shows "Read c fs \<lparr>buf = [], offset = 0, info = a, flag = flg\<rparr> n =
           Some (Ret (([], if 0 < n then Some EOF else None),
                      \<lparr>buf = [], offset = 0, info = a, flag = flg\<rparr>))"
  using assms by (subst Read_def, subst Read_loop.simps) (simp add: read_def)

lemma roundtrip_new_file:
  assumes rel: "reliable c" and ps: "pageSize fs = int P" and P: "0 < P"
    and new: "Pages (nodes fs a) = []" "Size (nodes fs a) = 0" "\<not> IsDir (nodes fs a)"
    and bound: "int (length (concat chunks)) < 2 ^ 63"
    and B': "B' = (if length (concat chunks) mod P = 0 then [] else concat chunks)"
  shows "roundtrip c fs a chunks n =
           Some ((take n B', if length B' < n then Some EOF else None), int (length B'))"
proof -
  from write_then_close_new [OF rel ps P new bound]
  obtain fs2 where wc: "write_then_close c fs a chunks = Some (None, fs2)"
    and p2: "pageSize fs2 = int P" and d2: "\<not> IsDir (nodes fs2 a)"
    and s2: "Size (nodes fs2 a) =
             (if length (concat chunks) mod P = 0 then 0 else int (length (concat chunks)))"
    and pc2: "page_contents c fs2 a =
             map (\<lambda>i. Inr (take P (drop (i * P) (concat chunks))))
               [0 ..< (length (concat chunks) + P - 1) div P]"
    by blast
  have nf: "newFile fs2 a ReadOnly = Ret (fs2, \<lparr>buf = [], offset = 0, info = a, flag = ReadOnly\<rparr>)"
    by (simp add: newFile_def ReadOnly_def WriteOnly_def)
  have ro: "ReadOnly AND WriteOnly = 0" by (simp add: ReadOnly_def)
  have sz: "Size (nodes fs2 a) = int (length B')" using s2 B' by simp
  have "\<exists>f'. Read c fs2 \<lparr>buf = [], offset = 0, info = a, flag = ReadOnly\<rparr> n =
          Some (Ret ((take n B', if length B' < n then Some EOF else None), f'))"
  proof (cases "length (concat chunks) mod P = 0")
    case True
    then have "B' = []" using B' by simp
    with Read_empty [OF d2 _ ro, of c n] s2 True show ?thesis by simp
  next
    case False
    then have e: "B' = concat chunks" using B' by simp
    with p2 d2 s2 pc2 False have "stored_file c fs2 a P B'" by (simp add: stored_file_def)
    moreover have "int (length B') < 2 ^ 63" using bound e by simp
    ultimately show ?thesis using Read_stored [OF _ P _ ro] by blast
  qed
  then obtain f' where "Read c fs2 \<lparr>buf = [], offset = 0, info = a, flag = ReadOnly\<rparr> n =
          Some (Ret ((take n B', if length B' < n then Some EOF else None), f'))" by blast
  with wc nf sz show ?thesis by (simp add: roundtrip_def reopen_read_def)
qed

lemma Read_after_seek:
  assumes st: "stored_file c fs a P B" and P: "0 < P" and bound: "int (length B) < 2 ^ 63"
    and pos: "pos < length B" and inf: "info f = a" and fl: "flag f AND WriteOnly = 0"
    and bf: "buf f = []" and off: "offset f = int pos"
    and n: "0 < n" "n \<le> length (take P (drop (pos div P * P) B))"
  shows "\<exists>f'. Read c fs f n = Some (Ret ((take n (drop (pos div P * P) B), None), f'))"
proof -
  define page where "page = take P (drop (pos div P * P) B)"
  from st have nd: "\<not> IsDir (nodes fs a)" unfolding stored_file_def by blast
  from read_load [OF st P bound pos inf bf off n(1)]
  obtain f1 where r: "read c fs f n = Ret ((take n page, None), f1)"
    unfolding page_def by blast
  have l: "length (take n page) = n" using n(2) by (simp add: page_def)
  have "\<not> length (take n page) < n" using l by simp
  then have "Read_loop c fs n (take n page) f1 = Some (Ret ((take n page, None), f1))"
    by (subst Read_loop.simps) (simp only: if_False)
  then have "Read_loop c fs n [] f = Some (Ret ((take n page, None), f1))"
    using n(1) r by (subst Read_loop.simps) simp
  moreover have "take n page = take n (drop (pos div P * P) B)"
  proof -
    from n(2) have "n \<le> P" by simp
    then show ?thesis by (simp add: page_def min_def)
  qed
  ultimately show ?thesis using fl nd inf by (simp add: Read_def)
qed

lemma Close_empty_buffer:
  "buf f = [] \<Longrightarrow>
   Close c fs f =
     Some (Ret (None, upd_info (info f) (\<lambda>fi. fi\<lparr>busy := False\<rparr>) fs, f\<lparr>offset := 0\<rparr>))"
  by (simp add: Close_def buf_Len_def)

section \<open>Close with an empty staging buffer (claims C1 and C5)\<close>

text \<open>
  C5 says that every close of a write handle sets the node's size to the number of
  bytes written and persists the tree, also when the staging buffer is empty.
  \<^verbatim>\<open>Close\<close> calls \<^verbatim>\<open>flush(true)\<close>, which does both, only when the buffer is not
  empty. After 4 bytes have been written with page size 4 the page is stored and the
  buffer is empty: \<^verbatim>\<open>Close\<close> returns nil, the node's size is still 0 and no tree has
  been persisted. The same happens with the page size \<^verbatim>\<open>MinPageSize\<close> after 32768
  bytes: the size is still 0.
\<close>

theorem C5_close_with_empty_buffer:
  "close_report (memFS 4) 0 [[104, 101, 108, 108]] = Some (None, 0, False, False) \<and>
   (\<exists>fs2. write_then_close memCollab (memFS MinPageSize) 0 [replicate 32768 0] = Some (None, fs2) \<and>
          Size (nodes fs2 0) = 0)"
proof -
  have a: "close_report (memFS 4) 0 [[104, 101, 108, 108]] = Some (None, 0, False, False)"
    by (simp add: run_defs flush_loop.simps)
  have "\<exists>fs2. write_then_close memCollab (memFS 32768) 0 [replicate 32768 0] = Some (None, fs2) \<and>
           pageSize fs2 = int 32768 \<and> \<not> IsDir (nodes fs2 0) \<and>
           Size (nodes fs2 0) =
             (if length (concat [replicate 32768 (0::byte)]) mod 32768 = 0 then 0
              else int (length (concat [replicate 32768 (0::byte)]))) \<and>
           page_contents memCollab fs2 0 =
             map (\<lambda>i. Inr (take 32768 (drop (i * 32768) (concat [replicate 32768 0]))))
               [0 ..< (length (concat [replicate 32768 (0::byte)]) + 32768 - 1) div 32768]"
    by (rule write_then_close_new [OF reliable_memCollab]) (simp_all add: memFS_def newNode_def)
  then obtain fs2 where
    "write_then_close memCollab (memFS 32768) 0 [replicate 32768 0] = Some (None, fs2)"
    and "Size (nodes fs2 0) =
             (if length (concat [replicate 32768 (0::byte)]) mod 32768 = 0 then 0
              else int (length (concat [replicate 32768 (0::byte)])))" by blast
  moreover have "length (concat [replicate 32768 (0::byte)]) mod 32768 = 0" by simp
  ultimately have "\<exists>fs2. write_then_close memCollab (memFS MinPageSize) 0 [replicate 32768 0] =
      Some (None, fs2) \<and> Size (nodes fs2 0) = 0"
    by (auto simp add: MinPageSize_def)
  with a show ?thesis by blast
qed

text \<open>
  C1 says that what was written is read back after close and reopen, and that the
  reported size is the number of bytes written. For 4 bytes and page size 4 the
  first \<^verbatim>\<open>Read\<close> after the reopen returns no byte and \<^verbatim>\<open>io.EOF\<close>, and the size is 0:
  the close left the size at 0, as above. The same happens for 32768 bytes and the
  page size \<^verbatim>\<open>MinPageSize\<close>.
\<close>

theorem C1_roundtrip_of_full_pages:
  "roundtrip memCollab (memFS 4) 0 [[104, 101, 108, 108]] 5 = Some (([], Some EOF), 0) \<and>
   roundtrip memCollab (memFS MinPageSize) 0 [replicate 32768 0] 32769 = Some (([], Some EOF), 0)"
proof -
  have a: "roundtrip memCollab (memFS 4) 0 [[104, 101, 108, 108]] 5 = Some (([], Some EOF), 0)"
    by (simp add: run_defs flush_loop.simps Read_loop.simps)
  have "roundtrip memCollab (memFS 32768) 0 [replicate 32768 0] 32769 =
      Some ((take 32769 ([]::byte list),
             if length ([]::byte list) < 32769 then Some EOF else None),
            int (length ([]::byte list)))"
    by (rule roundtrip_new_file [OF reliable_memCollab, where P = 32768])
       (simp_all add: memFS_def newNode_def)
  then have "roundtrip memCollab (memFS MinPageSize) 0 [replicate 32768 0] 32769 =
      Some (([], Some EOF), 0)"
    by (simp add: MinPageSize_def)
  with a show ?thesis by blast
qed

section \<open>Read after Seek (claim C2)\<close>

text \<open>
  C2 says that a \<^verbatim>\<open>Read\<close> at offset \<open>o\<close> with an empty staging buffer skips the
  \<open>o mod pageSize\<close> bytes before \<open>o\<close> in the page it loads. \<^verbatim>\<open>File.read\<close> calls
  \<^verbatim>\<open>f.buf.Grow(o % pageSize)\<close> there, which reserves capacity and skips nothing. On
  the 11-byte file \<^verbatim>\<open>"hello world"\<close> with page size 4, after a seek to offset 1 a
  \<^verbatim>\<open>Read\<close> of 2 bytes returns \<^verbatim>\<open>"he"\<close>, the bytes \<open>[0, 2)\<close>, and not \<^verbatim>\<open>"el"\<close>, the
  bytes \<open>[1, 3)\<close>; with the page size \<^verbatim>\<open>MinPageSize\<close> it does the same.
\<close>

theorem C2_read_after_seek:
  "Seek helloFS reader 1 SeekStart = ((1, None), reader\<lparr>offset := 1\<rparr>) \<and>
   Read memCollab helloFS (reader\<lparr>offset := 1\<rparr>) 2 =
     Some (Ret (([104, 101], None), reader\<lparr>buf := [108, 108], offset := 3\<rparr>)) \<and>
   Seek helloMinFS reader 1 SeekStart = ((1, None), reader\<lparr>offset := 1\<rparr>) \<and>
   Read memCollab helloMinFS (reader\<lparr>offset := 1\<rparr>) 2 =
     Some (Ret (([104, 101], None),
                reader\<lparr>buf := [108, 108, 111, 32, 119, 111, 114, 108, 100], offset := 3\<rparr>)) \<and>
   take 2 (drop 1 hello) = [101, 108]"
  by (simp add: helloFS_def helloMinFS_def MinPageSize_def hello_def reader_def Seek_def
      SeekStart_def run_defs flush_loop.simps Read_loop.simps)

end
